theory Spec2Isabelle
  imports Main
begin

section \<open>Text: case folding and the regular-expression tests of the scripts\<close>

text \<open>
  Page text is a \<^typ>\<open>string\<close>: a list of 8-bit characters. The scripts only ever compare
  page text with ASCII keywords, and no character above 127 folds to an ASCII letter,
  so folding the ASCII letters is all that the tests below can observe.
\<close>

definition isLowerAscii :: "char \<Rightarrow> bool" where
  "isLowerAscii c = (97 \<le> (of_char c :: nat) \<and> (of_char c :: nat) \<le> 122)"

definition isUpperAscii :: "char \<Rightarrow> bool" where
  "isUpperAscii c = (65 \<le> (of_char c :: nat) \<and> (of_char c :: nat) \<le> 90)"

definition isDigitAscii :: "char \<Rightarrow> bool" where
  "isDigitAscii c = (48 \<le> (of_char c :: nat) \<and> (of_char c :: nat) \<le> 57)"

definition upperChar :: "char \<Rightarrow> char" where
  "upperChar c = (if isLowerAscii c then char_of ((of_char c :: nat) - 32) else c)"

definition lowerChar :: "char \<Rightarrow> char" where
  "lowerChar c = (if isUpperAscii c then char_of ((of_char c :: nat) + 32) else c)"

definition toUpperCase :: "string \<Rightarrow> string" where
  "toUpperCase s = map upperChar s"

definition toLowerCase :: "string \<Rightarrow> string" where
  "toLowerCase s = map lowerChar s"

text \<open>The characters that \<open>String.prototype.trim\<close> removes, among the 8-bit ones.\<close>

definition isSpace :: "char \<Rightarrow> bool" where
  "isSpace c = ((of_char c :: nat) \<in> {9, 10, 11, 12, 13, 32, 160})"

definition trim :: "string \<Rightarrow> string" where
  "trim s = rev (dropWhile isSpace (rev (dropWhile isSpace s)))"

text \<open>\<open>s.includes(p)\<close>: \<open>p\<close> occurs in \<open>s\<close> as a contiguous run.\<close>

fun startsWith :: "string \<Rightarrow> string \<Rightarrow> bool" where
  "startsWith s [] = True"
| "startsWith [] (p # ps) = False"
| "startsWith (c # cs) (p # ps) = (c = p \<and> startsWith cs ps)"

fun str_includes :: "string \<Rightarrow> string \<Rightarrow> bool" where
  "str_includes [] p = startsWith [] p"
| "str_includes (c # cs) p = (startsWith (c # cs) p \<or> str_includes cs p)"

text \<open>
  \<open>/p/i.test(t)\<close> for a pattern \<open>p\<close> of plain characters: an occurrence of \<open>p\<close> in
  \<open>t\<close>, letters compared without case.
\<close>

definition testIgnoreCase :: "string \<Rightarrow> string \<Rightarrow> bool" where
  "testIgnoreCase p t = str_includes (toUpperCase t) (toUpperCase p)"

text \<open>
  \<open>/\bp\b/i.test(t)\<close> for a pattern that starts and ends with a word character: an
  occurrence of \<open>p\<close> with no word character (letter, digit, underscore) right before
  it and none right after it. The flag \<open>prev\<close> says whether the character before the
  current position is a word character.
\<close>

definition isWordChar :: "char \<Rightarrow> bool" where
  "isWordChar c = (isLowerAscii c \<or> isUpperAscii c \<or> isDigitAscii c \<or> c = CHR ''_'')"

definition boundaryAfter :: "string \<Rightarrow> bool" where
  "boundaryAfter rest = (case rest of [] \<Rightarrow> True | c # _ \<Rightarrow> \<not> isWordChar c)"

fun wordSearch :: "string \<Rightarrow> bool \<Rightarrow> string \<Rightarrow> bool" where
  "wordSearch p prev [] = (\<not> prev \<and> p = [])"
| "wordSearch p prev (c # cs) =
     ((\<not> prev \<and> startsWith (c # cs) p \<and> boundaryAfter (drop (length p) (c # cs)))
      \<or> wordSearch p (isWordChar c) cs)"

definition testWordIgnoreCase :: "string \<Rightarrow> string \<Rightarrow> bool" where
  "testWordIgnoreCase p t = wordSearch (toUpperCase p) False (toUpperCase t)"

section \<open>Exceptions\<close>

text \<open>An exception that leaves a function of the scripts: only that one was raised matters.\<close>

datatype exn = Raised

section \<open>Option elements and the completion check\<close>

text \<open>
  What \<open>getLabel\<close> and \<open>selectRadio\<close> read around an option, besides its ancestors:
  an identity of the node that \<open>getRootNode()\<close> returns; whether the option is an
  \<open>input\<close> element, as the selector of \<open>selectRadio\<close> asks; the option's \<open>id\<close>; the text
  of the label \<open>closest("label")\<close> finds; the text of the label that
  \<open>root.querySelector\<close> finds for the id; the text of the next element sibling; the
  texts of the parent's other children and of the grandparent's children that are
  neither the parent nor contain an input, both in document order.

  The scripts paste the \<open>name\<close> and the \<open>id\<close> unescaped between double quotes into
  a selector. For a plain name or id (\<open>plainName\<close> below) the selector is valid and
  means what it says. For any other, what the browser's selector parser makes of the
  text is given with the option: \<open>oddNameQuery\<close> and \<open>oddIdQuery\<close> are \<open>None\<close>
  when \<open>querySelectorAll\<close> or \<open>querySelector\<close> throws a syntax error (as for a
  name such as \<open>q"1\<close>), and otherwise hold the positions in the group of the
  matched inputs, or the text of the matched label.
\<close>

record reading =
  rootId :: nat
  isInput :: bool
  ident :: string
  closestLabel :: "string option"
  labelFor :: "string option"
  nextSibling :: "string option"
  siblings :: "string list"
  uncles :: "string list"
  oddNameQuery :: "nat list option"
  oddIdQuery :: "string option option"

text \<open>
  An element as \<open>isQuestionComplete\<close>, \<open>getLabel\<close> and \<open>selectRadio\<close> read and write
  it: its text, its \<open>name\<close>, \<open>checked\<close> and \<open>disabled\<close> properties, the two ways
  upward, and its surroundings. \<open>shadowHost\<close> is \<open>Some h\<close> when \<open>getRootNode()\<close> is a
  shadow root, whose host is \<open>h\<close>; \<open>parentElement\<close> is \<open>None\<close> for \<open>null\<close>.
\<close>

datatype element = Element
  (textContent: string)
  (name: string)
  (checked: bool)
  (disabled: bool)
  (shadowHost: "element option")
  (parentElement: "element option")
  (around: reading)

text \<open>
  The loop of \<open>isQuestionComplete\<close>: \<open>for (let i = 0; i < 20 && el; i++)\<close>. The first
  argument counts the hops that are left; \<open>Some b\<close> is a \<open>return b\<close> from inside the
  loop, \<open>None\<close> is the loop running out.
\<close>

fun walkUp :: "nat \<Rightarrow> element option \<Rightarrow> bool option" where
  "walkUp 0 el = None"
| "walkUp (Suc k) None = None"
| "walkUp (Suc k) (Some el) =
     (let node = (case shadowHost el of Some h \<Rightarrow> h | None \<Rightarrow> el);
          t = textContent node;
          further = walkUp k (case shadowHost el of Some h \<Rightarrow> Some h | None \<Rightarrow> parentElement el)
      in if testIgnoreCase ''Check Your Understanding'' t then
           (if testIgnoreCase ''INCOMPLETE'' t then Some False
            else if testWordIgnoreCase ''COMPLETE'' t then Some True
            else further)
         else further)"

definition isQuestionComplete :: "element list \<Rightarrow> bool" where
  "isQuestionComplete radios =
     (case walkUp 20 (case radios of [] \<Rightarrow> None | r # _ \<Rightarrow> Some r) of
        Some b \<Rightarrow> b
      | None \<Rightarrow> list_all disabled radios)"

text \<open>
  The same walk described by its parts, for comparison with the loop: the texts of
  the nodes it inspects, in order (at most as many as there are hops), and the test
  that makes a text decide the answer.
\<close>

fun inspected :: "nat \<Rightarrow> element option \<Rightarrow> string list" where
  "inspected 0 el = []"
| "inspected (Suc k) None = []"
| "inspected (Suc k) (Some el) =
     textContent (case shadowHost el of Some h \<Rightarrow> h | None \<Rightarrow> el)
       # inspected k (case shadowHost el of Some h \<Rightarrow> Some h | None \<Rightarrow> parentElement el)"

definition decides :: "string \<Rightarrow> bool" where
  "decides t =
     (testIgnoreCase ''Check Your Understanding'' t
      \<and> (testIgnoreCase ''INCOMPLETE'' t \<or> testWordIgnoreCase ''COMPLETE'' t))"

definition firstOf :: "'a list \<Rightarrow> 'a option" where
  "firstOf xs = (case xs of [] \<Rightarrow> None | x # _ \<Rightarrow> Some x)"

section \<open>Reading the labels\<close>

text \<open>
  A name or id that stands for itself between the double quotes of a selector: it has
  no double quote, backslash, line feed, carriage return, form feed or NUL.
\<close>

definition plainName :: "string \<Rightarrow> bool" where
  "plainName n =
     (\<forall>c \<in> set n. c \<noteq> CHR 0x22 \<and> c \<noteq> CHR 0x5C \<and> c \<noteq> CHR 0x0A \<and> c \<noteq> CHR 0x0D
                   \<and> c \<noteq> CHR 0x0C \<and> c \<noteq> CHR 0x00)"

text \<open>The character class \<open>[^A-F]\<close> keeps exactly the characters from A to F.\<close>

definition inAF :: "char \<Rightarrow> bool" where
  "inAF c = (65 \<le> (of_char c :: nat) \<and> (of_char c :: nat) \<le> 70)"

text \<open>\<open>clean(s)\<close>: \<open>(s || "").trim().replace(/^[A-F]\.\s*/i, "").trim()\<close>\<close>

definition stripLetter :: "string \<Rightarrow> string" where
  "stripLetter s =
     (case s of
        c # d # rest \<Rightarrow> if inAF (upperChar c) \<and> d = CHR ''.'' then dropWhile isSpace rest else s
      | _ \<Rightarrow> s)"

definition clean :: "string \<Rightarrow> string" where
  "clean s = trim (stripLetter (trim s))"

text \<open>A candidate text is taken when, cleaned, it is longer than 3 characters.\<close>

definition long :: "string option \<Rightarrow> string option" where
  "long c = (case c of None \<Rightarrow> None | Some t \<Rightarrow> if length (clean t) > 3 then Some (clean t) else None)"

fun firstLong :: "string list \<Rightarrow> string option" where
  "firstLong [] = None"
| "firstLong (t # ts) = (case long (Some t) of Some l \<Rightarrow> Some l | None \<Rightarrow> firstLong ts)"

text \<open>
  \<open>root.querySelector(`label[for="${radio.id}"]`)\<close>: \<open>None\<close> when it throws, else
  the text of the label found (if any).
\<close>

definition labelQuery :: "reading \<Rightarrow> string option option" where
  "labelQuery a = (if plainName (ident a) then Some (labelFor a) else oddIdQuery a)"

text \<open>
  The last three steps of \<open>getLabel\<close>: the parent's other children, then the
  grandparent's children, then the parent's own text, or the placeholder.
\<close>

definition labelNearby :: "element \<Rightarrow> string" where
  "labelNearby radio =
     (case parentElement radio of
        None \<Rightarrow> ''(no label)''
      | Some parent \<Rightarrow>
         (case firstLong (siblings (around radio)) of
            Some l \<Rightarrow> l
          | None \<Rightarrow>
             (case (case parentElement parent of
                      None \<Rightarrow> None
                    | Some gp \<Rightarrow> firstLong (uncles (around radio))) of
                Some l \<Rightarrow> l
              | None \<Rightarrow>
                 (if clean (textContent parent) = [] then ''(no label)''
                  else clean (textContent parent)))))"

text \<open>
  \<open>getLabel(radio)\<close>, its steps in order: the enclosing label; the label for the
  id, a step that is skipped for an empty id and raises when the selector built from
  the id is not valid; the next sibling; the rest.
\<close>

definition getLabel :: "element \<Rightarrow> exn + string" where
  "getLabel radio =
     (case long (closestLabel (around radio)) of
        Some l \<Rightarrow> Inr l
      | None \<Rightarrow>
         (case (if ident (around radio) = [] then Some None else labelQuery (around radio)) of
            None \<Rightarrow> Inl Raised
          | Some lbl \<Rightarrow>
             (case long lbl of
                Some l \<Rightarrow> Inr l
              | None \<Rightarrow>
                 (case long (nextSibling (around radio)) of
                    Some l \<Rightarrow> Inr l
                  | None \<Rightarrow> Inr (labelNearby radio)))))"

text \<open>\<open>radios.map(getLabel)\<close>: the labels in order, or the first exception.\<close>

fun getLabels :: "element list \<Rightarrow> exn + string list" where
  "getLabels [] = Inr []"
| "getLabels (r # rs) =
     (case getLabel r of
        Inl e \<Rightarrow> Inl e
      | Inr l \<Rightarrow> (case getLabels rs of Inl e \<Rightarrow> Inl e | Inr ls \<Rightarrow> Inr (l # ls)))"

section \<open>The document as the modal search reads it\<close>

text \<open>
  A rendered size read from an element: a number of pixels, or the read raising (the
  scripts guard some of these reads with \<open>try\<close>/\<open>catch\<close>).
\<close>

datatype measure = Throws | Px nat

text \<open>
  A node of a document or of a shadow tree: a text node, or an element with its tag,
  classes, attributes, rendered size, child nodes and, when it hosts one, the children
  of its (open) shadow root. A document or shadow root is the list of its children.
\<close>

datatype node =
    Text string
  | Elem (tag: string) (classList: "string list") (attributes: "(string \<times> string) list")
      (offsetWidth: measure) (offsetHeight: measure)
      (childNodes: "node list") (shadowRoot: "node list option")

datatype selector = Tag string | Class string | AttrEq string string | Star

fun nodeText :: "node \<Rightarrow> string" where
  "nodeText (Text s) = s"
| "nodeText (Elem t cl at w h ks sr) = concat (map nodeText ks)"

fun matches :: "selector \<Rightarrow> node \<Rightarrow> bool" where
  "matches sel (Text s) = False"
| "matches (Tag t') (Elem t cl at w h ks sr) = (t = t')"
| "matches (Class c) (Elem t cl at w h ks sr) = (c \<in> set cl)"
| "matches (AttrEq a v) (Elem t cl at w h ks sr) = (map_of at a = Some v)"
| "matches Star (Elem t cl at w h ks sr) = True"

text \<open>The elements of a subtree in document order, the root of the subtree first.\<close>

fun elementsOf :: "node \<Rightarrow> node list" where
  "elementsOf (Text s) = []"
| "elementsOf (Elem t cl at w h ks sr) = Elem t cl at w h ks sr # concat (map elementsOf ks)"

definition querySelectorAll :: "node list \<Rightarrow> selector \<Rightarrow> node list" where
  "querySelectorAll root sel = filter (matches sel) (concat (map elementsOf root))"

definition querySelector :: "node list \<Rightarrow> selector \<Rightarrow> node option" where
  "querySelector root sel = (case querySelectorAll root sel of [] \<Rightarrow> None | e # _ \<Rightarrow> Some e)"

fun shadowOf :: "node \<Rightarrow> node list option" where
  "shadowOf (Text s) = None"
| "shadowOf (Elem t cl at w h ks sr) = sr"

lemma shadow_smaller:
  "el \<in> set (elementsOf n) \<Longrightarrow> shadowOf el = Some sr \<Longrightarrow> size_list size sr < size n"
proof (induction n)
  case (Text s)
  then show ?case by simp
next
  case (Elem t cl at w h ks sr')
  show ?case
  proof (cases "el = Elem t cl at w h ks sr'")
    case True
    with Elem.prems show ?thesis by simp
  next
    case False
    with Elem.prems obtain k where k: "k \<in> set ks" "el \<in> set (elementsOf k)"
      by auto
    from Elem.IH(1)[OF k(1) k(2) Elem.prems(2)] have "size_list size sr < size k" .
    moreover from k(1) have "size k \<le> size_list size ks"
      by (simp add: size_list_estimation')
    ultimately show ?thesis by simp
  qed
qed

lemma shadow_smaller_root:
  assumes "el \<in> set (querySelectorAll root Star)" and "shadowOf el = Some sr"
  shows "size_list size sr < size_list size root"
proof -
  from assms(1) obtain n where n: "n \<in> set root" "el \<in> set (elementsOf n)"
    by (auto simp: querySelectorAll_def)
  from shadow_smaller[OF n(2) assms(2)] have "size_list size sr < size n" .
  moreover from n(1) have "size n \<le> size_list size root"
    by (simp add: size_list_estimation')
  ultimately show ?thesis by simp
qed

text \<open>
  \<open>deepFind(root, selector)\<close>: the matches of the root's own tree, then, for every
  element of that tree in order that hosts a shadow root, the deep matches of the
  shadow root.
\<close>

function deepFind :: "node list \<Rightarrow> selector \<Rightarrow> node list" where
  "deepFind root sel =
     querySelectorAll root sel @
     concat (map (\<lambda>el. case shadowOf el of Some sr \<Rightarrow> deepFind sr sel | None \<Rightarrow> [])
                 (querySelectorAll root Star))"
  by pat_completeness auto
termination
  by (relation "measure (\<lambda>(root, sel). size_list size root)")
     (auto dest: shadow_smaller_root)

text \<open>The test of \<open>deepFindByText\<close>: \<open>el.textContent.trim().toLowerCase().includes(text.toLowerCase())\<close>\<close>

definition hasText :: "node \<Rightarrow> string \<Rightarrow> bool" where
  "hasText el txt = str_includes (toLowerCase (trim (nodeText el))) (toLowerCase txt)"

definition deepFindByText :: "node list \<Rightarrow> selector \<Rightarrow> string \<Rightarrow> node list" where
  "deepFindByText root sel txt = filter (\<lambda>el. hasText el txt) (deepFind root sel)"

declare deepFind.simps [simp del]

section \<open>Local modal resolution\<close>

datatype outcome = Correct | Wrong | Unknown

text \<open>
  The filter callback of the two keyword loops:
  \<open>try { return b.offsetWidth > 0 && b.offsetHeight > 0; } catch (_) { return true; }\<close>.
  The height is read only when the width is positive.
\<close>

definition isVisible :: "node \<Rightarrow> bool" where
  "isVisible b =
     (case offsetWidth b of
        Throws \<Rightarrow> True
      | Px w \<Rightarrow> if 0 < w then (case offsetHeight b of Throws \<Rightarrow> True | Px h \<Rightarrow> 0 < h)
                else False)"

text \<open>
  The filter callback of the \<open>aria-label\<close> loop:
  \<open>try { return e.offsetWidth > 0; } catch (_) { return true; }\<close>.
\<close>

definition isVisibleWidth :: "node \<Rightarrow> bool" where
  "isVisibleWidth e = (case offsetWidth e of Throws \<Rightarrow> True | Px w \<Rightarrow> 0 < w)"

text \<open>
  The body shared by the two keyword loops: for each keyword in turn, the visible
  buttons whose text contains it; the first keyword with a visible button gives
  \<open>visible[0]\<close>.
\<close>

fun visibleButton :: "node list \<Rightarrow> string list \<Rightarrow> node option" where
  "visibleButton doc [] = None"
| "visibleButton doc (kw # kws) =
     (case filter isVisible (deepFindByText doc (Tag ''button'') kw) of
        [] \<Rightarrow> visibleButton doc kws
      | b # _ \<Rightarrow> Some b)"

fun visibleLabelled :: "node list \<Rightarrow> string list \<Rightarrow> node option" where
  "visibleLabelled doc [] = None"
| "visibleLabelled doc (l # ls) =
     (case filter isVisibleWidth (deepFind doc (AttrEq ''aria-label'' l)) of
        [] \<Rightarrow> visibleLabelled doc ls
      | e # _ \<Rightarrow> Some e)"

text \<open>
  \<open>tryDismissLocal()\<close> on the document of the frame it runs in. The result is the
  returned string (\<open>None\<close> for \<open>null\<close>) with the element handed to \<open>nativeClick\<close>,
  or \<open>Inl Raised\<close> when the unguarded read \<open>closeBtn.offsetWidth\<close> raises.
\<close>

definition dismissByLabel :: "node list \<Rightarrow> outcome option \<times> node option" where
  "dismissByLabel doc =
     (case visibleLabelled doc [''Close'', ''close'', ''Dismiss''] of
        Some e \<Rightarrow> (Some Correct, Some e)
      | None \<Rightarrow> (None, None))"

definition tryDismissLocal :: "node list \<Rightarrow> exn + (outcome option \<times> node option)" where
  "tryDismissLocal doc =
     (case visibleButton doc [''try again'', ''retry''] of
        Some b \<Rightarrow> Inr (Some Wrong, Some b)
      | None \<Rightarrow>
         (case visibleButton doc [''finish'', ''ok'', ''done'', ''continue'', ''got it''] of
            Some b \<Rightarrow> Inr (Some Correct, Some b)
          | None \<Rightarrow>
             (case querySelector doc (Class ''question-frame__feedback__close-btn'') of
                None \<Rightarrow> Inr (dismissByLabel doc)
              | Some closeBtn \<Rightarrow>
                 (case offsetWidth closeBtn of
                    Throws \<Rightarrow> Inl Raised
                  | Px w \<Rightarrow> if 0 < w then Inr (Some Correct, Some closeBtn)
                            else Inr (dismissByLabel doc)))))"

text \<open>
  The elements of a document, said without the search: an element is in the document
  when it is one of the document's own children, a child of an element in the
  document, or a child of the shadow root of an element in the document.
\<close>

inductive inDocument :: "node list \<Rightarrow> node \<Rightarrow> bool" for root where
  top: "Elem t cl at w h ks sr \<in> set root \<Longrightarrow> inDocument root (Elem t cl at w h ks sr)"
| child: "inDocument root host \<Longrightarrow> Elem t cl at w h ks sr \<in> set (childNodes host)
          \<Longrightarrow> inDocument root (Elem t cl at w h ks sr)"
| shadow: "inDocument root host \<Longrightarrow> shadowOf host = Some tree \<Longrightarrow> Elem t cl at w h ks sr \<in> set tree
          \<Longrightarrow> inDocument root (Elem t cl at w h ks sr)"

fun isButton :: "node \<Rightarrow> bool" where
  "isButton (Text s) = False"
| "isButton (Elem t cl at w h ks sr) = (t = ''button'')"

text \<open>
  A visible button of the document whose text carries one of the keywords: any
  button element in the document, at any depth of shadow trees, that passes the
  keyword loops' visibility test and text test.
\<close>

definition visibleMatch :: "node list \<Rightarrow> string list \<Rightarrow> node \<Rightarrow> bool" where
  "visibleMatch doc kws b =
     (inDocument doc b \<and> isButton b \<and> isVisible b \<and> list_ex (hasText b) kws)"

section \<open>The relay to the top frame\<close>

text \<open>
  What a frame cannot see when it asks the top frame to resolve the modal: whether its
  own message fails (\<open>chrome.runtime.lastError\<close> in its callback), the tab id the
  worker reads from the sender, whether the worker's message to frame 0 fails, and the
  document of the top frame. A response is \<open>Some r\<close> for \<open>{ result: r }\<close> and
  \<open>None\<close> when no response object arrives.
\<close>

record relay =
  runtimeLastError :: bool
  senderTabId :: "nat option"
  tabsLastError :: bool
  topDocument :: "node list"

text \<open>
  The top frame's listener for \<open>dismissModal\<close>:
  \<open>sendResponse({ result: tryDismissLocal() || "unknown" })\<close>. When \<open>tryDismissLocal\<close>
  raises, nothing is sent.
\<close>

definition topDismissModal :: "node list \<Rightarrow> outcome option" where
  "topDismissModal doc =
     (case tryDismissLocal doc of
        Inl e \<Rightarrow> None
      | Inr (None, clicked) \<Rightarrow> Some Unknown
      | Inr (Some r, clicked) \<Rightarrow> Some r)"

text \<open>The worker's \<open>dismissModal\<close> branch; \<open>!tabId\<close> holds for a missing id and for 0.\<close>

definition relayDismissModal :: "relay \<Rightarrow> outcome option" where
  "relayDismissModal r =
     (if senderTabId r = None \<or> senderTabId r = Some 0 then Some Unknown
      else if tabsLastError r then Some Unknown
      else (case topDismissModal (topDocument r) of
              None \<Rightarrow> Some Unknown
            | Some res \<Rightarrow> Some res))"

text \<open>
  The callback of the frame's \<open>sendMessage({ type: "dismissModal" })\<close>:
  \<open>"unknown"\<close> on \<open>lastError\<close>, else \<open>res?.result || "unknown"\<close>.
\<close>

definition askTopFrame :: "relay \<Rightarrow> outcome" where
  "askTopFrame r =
     (if runtimeLastError r then Unknown
      else (case relayDismissModal r of None \<Rightarrow> Unknown | Some res \<Rightarrow> res))"

definition dismissFeedbackModal :: "bool \<Rightarrow> node list \<Rightarrow> relay \<Rightarrow> exn + outcome" where
  "dismissFeedbackModal isTop doc r =
     (case tryDismissLocal doc of
        Inl e \<Rightarrow> Inl e
      | Inr (Some localResult, clicked) \<Rightarrow> Inr localResult
      | Inr (None, clicked) \<Rightarrow> if \<not> isTop then Inr (askTopFrame r) else Inr Unknown)"

section \<open>Asking the AI (content script side)\<close>

text \<open>
  The \<open>index\<close> field of a response as JavaScript reads it: absent, \<open>NaN\<close>, or an
  integer. (The worker only ever sends integers; other numbers are not modelled.)
\<close>

datatype js_index = Undefined | NaN | Num int

text \<open>
  What the callback of \<open>sendMessage({ type: "askAI", ... })\<close> finds:
  \<open>chrome.runtime.lastError\<close> set, or a response object with its \<open>error\<close>,
  \<open>index\<close> and \<open>raw\<close> fields (\<open>None\<close> for an absent field).
\<close>

datatype ai_reply =
    LastError string
  | Res (res_error: "string option") (res_index: js_index) (res_raw: "string option")

record ai_result =
  index :: js_index
  error :: bool
  raw :: "string option"

text \<open>A string field is truthy when it is present and not empty.\<close>

definition truthy :: "string option \<Rightarrow> bool" where
  "truthy f = (case f of None \<Rightarrow> False | Some m \<Rightarrow> m \<noteq> [])"

text \<open>
  \<open>askAI\<close>: the value the promise resolves to when the callback runs. On
  \<open>lastError\<close> and on a truthy \<open>res.error\<close> it is \<open>{ index: 0, error: true }\<close>;
  otherwise it is the response itself, whose \<open>error\<close> field is then falsy. The
  field \<open>error\<close> of the result holds the truthiness of that field, which is all the
  caller reads.
\<close>

definition askAI :: "ai_reply \<Rightarrow> ai_result" where
  "askAI reply =
     (case reply of
        LastError m \<Rightarrow> \<lparr>index = Num 0, error = True, raw = None\<rparr>
      | Res e i r \<Rightarrow>
          if truthy e then \<lparr>index = Num 0, error = True, raw = None\<rparr>
          else \<lparr>index = i, error = False, raw = r\<rparr>)"

text \<open>
  The call of \<open>chrome.runtime.sendMessage\<close> inside \<open>askAI\<close>: either it throws at
  once (as it does when the extension context is gone, the case that \<open>onButtonClick\<close>
  catches around its own call), or its callback runs with a reply. Nothing in
  \<open>askAI\<close> catches the exception: the promise is then rejected.
\<close>

datatype sending = SendThrows | Replied ai_reply

section \<open>Solving one question\<close>

text \<open>\<open>aiResult.index || 0\<close>: absent, \<open>NaN\<close> and 0 all give 0.\<close>

definition orZero :: "js_index \<Rightarrow> int" where
  "orZero i = (case i of Undefined \<Rightarrow> 0 | NaN \<Rightarrow> 0 | Num k \<Rightarrow> k)"

text \<open>\<open>Math.min(Math.max(aiResult.index || 0, 0), radios.length - 1)\<close>\<close>

definition aiChoice :: "nat \<Rightarrow> js_index \<Rightarrow> int" where
  "aiChoice n i = min (max (orZero i) 0) (int n - 1)"

text \<open>
  \<open>[aiChoice, ...Array.from({ length: n }, (_, i) => i).filter(i => i !== aiChoice)]\<close>
\<close>

definition trialOrder :: "nat \<Rightarrow> int \<Rightarrow> int list" where
  "trialOrder n k = k # filter (\<lambda>i. i \<noteq> k) (map int [0..<n])"

text \<open>\<open>radios[i]\<close>: \<open>None\<close> stands for \<open>undefined\<close>.\<close>

definition at_index :: "'a list \<Rightarrow> int \<Rightarrow> 'a option" where
  "at_index xs i = (if 0 \<le> i \<and> i < int (length xs) then Some (xs ! nat i) else None)"

text \<open>
  \<open>root.querySelectorAll(`input[name="${radio.name}"]`)\<close> for an option of the
  group: \<open>None\<close> when it throws, else the positions in the group of the inputs it
  returns. For a plain name these are the \<open>input\<close> elements among the options
  that are in the same root and have that name.
\<close>

definition nameQuery :: "element list \<Rightarrow> element \<Rightarrow> nat list option" where
  "nameQuery radios radio =
     (if plainName (name radio) then
        Some (filter (\<lambda>p. isInput (around (radios ! p))
                           \<and> rootId (around (radios ! p)) = rootId (around radio)
                           \<and> name (radios ! p) = name radio) [0..<length radios])
      else oddNameQuery (around radio))"

definition setChecked :: "bool \<Rightarrow> element \<Rightarrow> element" where
  "setChecked b e =
     Element (textContent e) (name e) b (disabled e) (shadowHost e) (parentElement e) (around e)"

text \<open>\<open>.forEach(r => (r.checked = false))\<close> over the matched options.\<close>

definition uncheckAll :: "nat list \<Rightarrow> element list \<Rightarrow> element list" where
  "uncheckAll ps radios =
     map (\<lambda>p. if p \<in> set ps then setChecked False (radios ! p) else radios ! p) [0..<length radios]"

text \<open>
  \<open>selectRadio(radios[i])\<close> as a change of the group's option states by the script's
  own writes: nothing for \<open>undefined\<close>; otherwise, when the option has a name, the
  query is made (it may throw, and nothing catches that) and every option it returns
  is unchecked; then the option itself is checked. What the browser and the page do
  with the events dispatched afterwards is not part of this state; it shows in what
  the page presents next.
\<close>

definition selectRadio :: "element list \<Rightarrow> int \<Rightarrow> exn + element list" where
  "selectRadio radios i =
     (case at_index radios i of
        None \<Rightarrow> Inr radios
      | Some radio \<Rightarrow>
          (if name radio = [] then Inr (radios[nat i := setChecked True (radios ! nat i)])
           else case nameQuery radios radio of
                  None \<Rightarrow> Inl Raised
                | Some ps \<Rightarrow>
                    Inr ((uncheckAll ps radios)[nat i := setChecked True (uncheckAll ps radios ! nat i)])))"

text \<open>
  What the page shows during one trial, after the option was selected: the button
  that \<open>findCheckAnswerBtn\<close> finds (if any), the frame's document when the modal is
  looked for, and the relay to the top frame.
\<close>

record page =
  checkAnswerBtn :: "node option"
  document :: "node list"
  toTop :: relay

definition clickCheckAnswer :: "page \<Rightarrow> bool" where
  "clickCheckAnswer pg = (case checkAnswerBtn pg of None \<Rightarrow> False | Some btn \<Rightarrow> True)"

datatype action = AskAI | SelectRadio int | ClickLabel int | ClickCheckAnswer | DismissModal

datatype verdict = AlreadyComplete | Solved int | Exhausted | Rejected exn

record run =
  verdict :: verdict
  options :: "element list"
  trace :: "action list"

definition after :: "action list \<Rightarrow> run \<Rightarrow> run" where
  "after acts r = r\<lparr>trace := acts @ trace r\<rparr>"

text \<open>
  The last step of \<open>selectRadio\<close>: \<open>if (lbl) nativeClick(lbl)\<close> for the enclosing
  label, recorded as an event of its own.
\<close>

definition labelClick :: "element list \<Rightarrow> int \<Rightarrow> action list" where
  "labelClick radios i =
     (case at_index radios i of
        None \<Rightarrow> []
      | Some radio \<Rightarrow> (case closestLabel (around radio) of None \<Rightarrow> [] | Some l \<Rightarrow> [ClickLabel i]))"

text \<open>
  The loop \<open>for (const i of order)\<close>. \<open>pages j\<close> is what the page shows during the
  \<open>j\<close>-th trial; \<open>j\<close> counts the trials made so far. The verdict tells the ways out
  apart: \<open>return\<close> after \<open>"correct"\<close>, falling out of the loop, and an exception from
  \<open>selectRadio\<close> or from \<open>dismissFeedbackModal\<close>.
\<close>

fun tryOrder :: "bool \<Rightarrow> (nat \<Rightarrow> page) \<Rightarrow> nat \<Rightarrow> element list \<Rightarrow> int list \<Rightarrow> run" where
  "tryOrder isTop pages j radios [] =
     \<lparr>verdict = Exhausted, options = radios, trace = []\<rparr>"
| "tryOrder isTop pages j radios (i # rest) =
     (case selectRadio radios i of
        Inl e \<Rightarrow> \<lparr>verdict = Rejected e, options = radios, trace = [SelectRadio i]\<rparr>
      | Inr radios' \<Rightarrow>
          if \<not> clickCheckAnswer (pages j) then
            after (SelectRadio i # labelClick radios i)
              (tryOrder isTop pages (Suc j) radios' rest)
          else
            (case dismissFeedbackModal isTop (document (pages j)) (toTop (pages j)) of
               Inl e \<Rightarrow>
                 \<lparr>verdict = Rejected e, options = radios',
                  trace = SelectRadio i # labelClick radios i @ [ClickCheckAnswer, DismissModal]\<rparr>
             | Inr result \<Rightarrow>
                 if result = Correct then
                   \<lparr>verdict = Solved i, options = radios',
                    trace = SelectRadio i # labelClick radios i @ [ClickCheckAnswer, DismissModal]\<rparr>
                 else
                   after (SelectRadio i # labelClick radios i @ [ClickCheckAnswer, DismissModal])
                     (tryOrder isTop pages (Suc j) radios' rest)))"

text \<open>
  \<open>solveOneQuestion(radios, qIndex)\<close>. The labels are read first, and an exception
  from \<open>getLabel\<close> ends the run before the AI is asked. Reading the question text
  cannot raise and feeds only the AI request. \<open>await askAI(...)\<close> raises when the
  promise is rejected; otherwise the run goes on with what the promise resolves to.
\<close>

definition solveOneQuestion :: "bool \<Rightarrow> sending \<Rightarrow> (nat \<Rightarrow> page) \<Rightarrow> element list \<Rightarrow> run" where
  "solveOneQuestion isTop sent pages radios =
     (if isQuestionComplete radios then
        \<lparr>verdict = AlreadyComplete, options = radios, trace = []\<rparr>
      else
        (case getLabels radios of
           Inl e \<Rightarrow> \<lparr>verdict = Rejected e, options = radios, trace = []\<rparr>
         | Inr labels \<Rightarrow>
            (case sent of
               SendThrows \<Rightarrow> \<lparr>verdict = Rejected Raised, options = radios, trace = [AskAI]\<rparr>
             | Replied reply \<Rightarrow>
                 (let aiResult = askAI reply;
                      k = aiChoice (length radios) (index aiResult);
                      order = trialOrder (length radios) k
                  in after [AskAI] (tryOrder isTop pages 0 radios order)))))"

text \<open>
  What one trial of an option comes to: the selection raises; or no Check Answer
  button is found (the loop goes on without looking for a modal); or
  \<open>dismissFeedbackModal\<close> raises; or it reports an outcome. Whether the selection
  raises depends on the option's name and surroundings only, which no selection
  changes, so the report can be read off the group as it was given.
\<close>

datatype report = SelectRaised | NoCheckButton | ModalRaised | Reported outcome

definition trialReport :: "bool \<Rightarrow> page \<Rightarrow> element list \<Rightarrow> int \<Rightarrow> report" where
  "trialReport isTop pg radios i =
     (case selectRadio radios i of
        Inl e \<Rightarrow> SelectRaised
      | Inr radios' \<Rightarrow>
          if \<not> clickCheckAnswer pg then NoCheckButton
          else (case dismissFeedbackModal isTop (document pg) (toTop pg) of
                  Inl e \<Rightarrow> ModalRaised
                | Inr result \<Rightarrow> Reported result))"

text \<open>A trial report with \<open>"unknown"\<close> replaced by \<open>"wrong"\<close>.\<close>

definition unknownAsWrong :: "report \<Rightarrow> report" where
  "unknownAsWrong t = (if t = Reported Unknown then Reported Wrong else t)"

text \<open>
  The trial order of a run and the report of its \<open>j\<close>-th trial, named for the
  statements about runs.
\<close>

definition orderOf :: "ai_reply \<Rightarrow> element list \<Rightarrow> int list" where
  "orderOf reply radios = trialOrder (length radios) (aiChoice (length radios) (index (askAI reply)))"

definition reportAt :: "bool \<Rightarrow> ai_reply \<Rightarrow> (nat \<Rightarrow> page) \<Rightarrow> element list \<Rightarrow> nat \<Rightarrow> report" where
  "reportAt isTop reply pages radios j = trialReport isTop (pages j) radios (orderOf reply radios ! j)"

text \<open>
  The options selected in a run, in order: one for every call of \<open>selectRadio\<close>,
  also for a call that raises.
\<close>

definition selections :: "action list \<Rightarrow> int list" where
  "selections acts = concat (map (\<lambda>a. case a of SelectRadio i \<Rightarrow> [i] | _ \<Rightarrow> []) acts)"

text \<open>
  What a selection can depend on for raising, and what no selection changes: the
  names and surroundings of the options.
\<close>

definition shape :: "element list \<Rightarrow> (string \<times> reading) list" where
  "shape rs = map (\<lambda>r. (name r, around r)) rs"

text \<open>A report after which the loop goes on to the next option.\<close>

definition goesOn :: "report \<Rightarrow> bool" where
  "goesOn t = (t = NoCheckButton \<or> t = Reported Wrong \<or> t = Reported Unknown)"

section \<open>The worker's answer to an AI request\<close>

text \<open>
  A parsed JSON value (numbers as integers: no test below looks at the value of a
  number; an object lists each of its keys once). \<open>None\<close> of type
  \<^typ>\<open>'a option\<close> stands for \<open>undefined\<close>.
\<close>

datatype json =
    JNull
  | JBool bool
  | JNum int
  | JStr string
  | JArr "json list"
  | JObj "(string \<times> json) list"

text \<open>
  \<open>v.key\<close> for a name that no built-in prototype defines (\<open>choices\<close>, \<open>message\<close>,
  \<open>content\<close>), on a value that is not \<open>null\<close>: only an object can have it.
\<close>

fun getProp :: "json \<Rightarrow> string \<Rightarrow> json option" where
  "getProp (JObj kvs) key = map_of kvs key"
| "getProp v key = None"

text \<open>\<open>v[0]\<close> on a value that is not \<open>null\<close>.\<close>

fun getFirst :: "json \<Rightarrow> json option" where
  "getFirst (JArr []) = None"
| "getFirst (JArr (x # xs)) = Some x"
| "getFirst (JStr []) = None"
| "getFirst (JStr (c # cs)) = Some (JStr [c])"
| "getFirst (JObj kvs) = map_of kvs ''0''"
| "getFirst v = None"

text \<open>
  \<open>data.choices?.[0]?.message?.content?.trim() ?? ""\<close>. Reading \<open>choices\<close> from
  \<open>null\<close> raises; each \<open>?.\<close> ends the chain with \<open>undefined\<close> on a nullish value;
  \<open>trim\<close> exists on strings only, so calling it on any other value raises.
\<close>

definition rawContent :: "json \<Rightarrow> exn + string" where
  "rawContent data =
     (if data = JNull then Inl Raised
      else case getProp data ''choices'' of
        None \<Rightarrow> Inr []
      | Some JNull \<Rightarrow> Inr []
      | Some choices \<Rightarrow>
         (case getFirst choices of
            None \<Rightarrow> Inr []
          | Some JNull \<Rightarrow> Inr []
          | Some choice \<Rightarrow>
             (case getProp choice ''message'' of
                None \<Rightarrow> Inr []
              | Some JNull \<Rightarrow> Inr []
              | Some message \<Rightarrow>
                 (case getProp message ''content'' of
                    None \<Rightarrow> Inr []
                  | Some JNull \<Rightarrow> Inr []
                  | Some (JStr content) \<Rightarrow> Inr (trim content)
                  | Some other \<Rightarrow> Inl Raised))))"

definition letters :: "string list" where
  "letters = [''A'', ''B'', ''C'', ''D'', ''E'', ''F'']"

text \<open>\<open>xs.indexOf(x)\<close>: the first position of \<open>x\<close>, or -1.\<close>

fun indexOf :: "'a list \<Rightarrow> 'a \<Rightarrow> int" where
  "indexOf [] x = -1"
| "indexOf (y # ys) x = (if y = x then 0 else (let r = indexOf ys x in if r < 0 then -1 else r + 1))"

text \<open>
  \<open>letters.indexOf(raw.toUpperCase().replace(/[^A-F]/g, "").charAt(0))\<close> and
  \<open>letterIdx >= 0 ? letterIdx : 0\<close>
\<close>

definition letterIdx :: "string \<Rightarrow> int" where
  "letterIdx rawText = indexOf letters (take 1 (filter inAF (toUpperCase rawText)))"

definition answerIndex :: "string \<Rightarrow> int" where
  "answerIndex rawText = (if letterIdx rawText \<ge> 0 then letterIdx rawText else 0)"

text \<open>
  What \<open>fetch\<close> gives the worker: a rejection, or a response with its \<open>ok\<close> flag,
  status (in decimal digits), body text, and the body parsed as JSON (\<open>None\<close> when
  \<open>res.json()\<close> rejects).
\<close>

datatype fetched =
    Rejects string
  | Http (ok: bool) (status: string) (bodyText: string) (bodyJson: "json option")

datatype ai_response = ErrorResponse string | Answer int string

text \<open>
  The worker's \<open>askAI\<close> branch, from the stored key onward. The messages of the
  exceptions caught by \<open>catch (e)\<close> belong to the JavaScript engine; \<open>''exception''\<close>
  stands for them.
\<close>

definition onAskAI :: "string option \<Rightarrow> fetched \<Rightarrow> ai_response" where
  "onAskAI openaiKey f =
     (if \<not> truthy openaiKey then ErrorResponse ''No API key. Set it in extension Options.''
      else case f of
        Rejects m \<Rightarrow> ErrorResponse m
      | Http isOk st txt body \<Rightarrow>
          if \<not> isOk then ErrorResponse (''OpenAI '' @ st @ '': '' @ txt)
          else (case body of
                  None \<Rightarrow> ErrorResponse ''exception''
                | Some data \<Rightarrow>
                   (case rawContent data of
                      Inl e \<Rightarrow> ErrorResponse ''exception''
                    | Inr rawText \<Rightarrow> Answer (answerIndex rawText) rawText)))"

fun isError :: "ai_response \<Rightarrow> bool" where
  "isError (ErrorResponse m) = True"
| "isError (Answer i rawText) = False"


section \<open>Example pages\<close>

text \<open>
  A group of four enabled options, each inside a label, within a question block that
  is not marked complete; the same group with every option disabled; and pages whose
  modal shows a single visible button. The example frames are top frames, so the
  relay is unused.
\<close>

definition bare :: reading where
  "bare =
     \<lparr>rootId = 0, isInput = True, ident = [], closestLabel = None, labelFor = None, nextSibling = None,
      siblings = [], uncles = [], oddNameQuery = None, oddIdQuery = None\<rparr>"

definition labelled :: "string \<Rightarrow> reading" where
  "labelled l = bare\<lparr>closestLabel := Some l\<rparr>"

definition exampleRadio :: "bool \<Rightarrow> element" where
  "exampleRadio d =
     Element [] ''q1'' False d None
       (Some (Element ''Question 1 Select an Answer'' [] False False None None bare))
       (labelled ''A. The mitochondrion'')"

definition exampleGroup :: "element list" where
  "exampleGroup = [exampleRadio False, exampleRadio False, exampleRadio False, exampleRadio False]"

definition answeredGroup :: "element list" where
  "answeredGroup = [exampleRadio True, exampleRadio True, exampleRadio True, exampleRadio True]"

definition button :: "string \<Rightarrow> nat \<Rightarrow> nat \<Rightarrow> node" where
  "button label w h = Elem ''button'' [] [] (Px w) (Px h) [Text label] None"

definition deadRelay :: relay where
  "deadRelay = \<lparr>runtimeLastError = True, senderTabId = None, tabsLastError = True, topDocument = []\<rparr>"

definition modalPage :: "node list \<Rightarrow> page" where
  "modalPage doc =
     \<lparr>checkAnswerBtn = Some (button ''Check Answer'' 120 40), document = doc, toTop = deadRelay\<rparr>"

definition tryAgainPage :: page where
  "tryAgainPage = modalPage [button ''Try Again'' 90 30]"

definition finishPage :: page where
  "finishPage = modalPage [button ''Finish'' 90 30]"

definition blankPage :: page where
  "blankPage = modalPage []"

definition alwaysTryAgain :: "nat \<Rightarrow> page" where
  "alwaysTryAgain j = tryAgainPage"

text \<open>
  Two modals with one hidden and one visible button; an option whose question block
  is headed Check Your Understanding and marked COMPLETED; a close control of the feedback class with width but no height, and one
  whose width cannot be read; a frame without a modal, and a relay that reaches a top
  frame showing Finish; a completion whose content is a list of parts.
\<close>

definition hiddenFinishDoc :: "node list" where
  "hiddenFinishDoc = [button ''Finish'' 0 0, button ''Try Again'' 90 30]"

definition hiddenTryAgainDoc :: "node list" where
  "hiddenTryAgainDoc = [button ''Try Again'' 0 0, button ''Finish'' 90 30]"

text \<open>
  A document with a visible Finish button of its own and a visible Try Again button
  two shadow roots deep.
\<close>

definition innerHost :: node where
  "innerHost = Elem ''nds-modal'' [] [] (Px 300) (Px 200) [] (Some [button ''Try Again'' 90 30])"

definition outerHost :: node where
  "outerHost =
     Elem ''question-frame'' [] [] (Px 600) (Px 400) []
       (Some [Elem ''div'' [] [] (Px 600) (Px 400) [innerHost] None])"

definition shadowedTryAgainDoc :: "node list" where
  "shadowedTryAgainDoc = [Elem ''main'' [] [] (Px 800) (Px 600) [button ''Finish'' 90 30, outerHost] None]"

definition completedRadio :: element where
  "completedRadio =
     Element [] ''q1'' False False None
       (Some (Element ''Check Your Understanding COMPLETED'' [] False False None None bare))
       (labelled ''A. The mitochondrion'')"

definition flatClose :: node where
  "flatClose = Elem ''button'' [''question-frame__feedback__close-btn''] [] (Px 24) (Px 0) [] None"

definition brokenClose :: node where
  "brokenClose = Elem ''button'' [''question-frame__feedback__close-btn''] [] Throws (Px 24) [] None"


definition partsCompletion :: json where
  "partsCompletion =
     JObj [(''choices'',
       JArr [JObj [(''message'',
         JObj [(''role'', JStr ''assistant''),
               (''content'', JArr [JObj [(''type'', JStr ''text''), (''text'', JStr ''B'')]])])]])]"

definition textCompletion :: "string \<Rightarrow> json" where
  "textCompletion content =
     JObj [(''choices'',
       JArr [JObj [(''message'',
         JObj [(''role'', JStr ''assistant''), (''content'', JStr content)])]])]"

text \<open>
  Two options named \<open>q"1\<close>, for which the browser rejects the selector that
  \<open>selectRadio\<close> builds; and two options with the id \<open>a"b\<close> and no enclosing label,
  for which it rejects the selector that \<open>getLabel\<close> builds.
\<close>

definition quotedRadio :: element where
  "quotedRadio =
     Element [] [CHR ''q'', CHR 0x22, CHR ''1''] False False None
       (Some (Element ''Question 1 Select an Answer'' [] False False None None bare))
       (labelled ''A. The mitochondrion'')"

definition quotedGroup :: "element list" where
  "quotedGroup = [quotedRadio, quotedRadio]"

definition quotedIdRadio :: element where
  "quotedIdRadio =
     Element [] ''q1'' False False None
       (Some (Element ''Question 1 Select an Answer'' [] False False None None bare))
       (bare\<lparr>ident := [CHR ''a'', CHR 0x22, CHR ''b'']\<rparr>)"

definition quotedIdGroup :: "element list" where
  "quotedIdGroup = [quotedIdRadio, quotedIdRadio]"

definition alwaysFinish :: "nat \<Rightarrow> page" where
  "alwaysFinish j = finishPage"

text \<open>A page that answers the first trial with Try Again, shows no modal after the
  second, and answers every later trial with Finish.\<close>

definition thirdTimeLucky :: "nat \<Rightarrow> page" where
  "thirdTimeLucky j = (if j = 0 then tryAgainPage else if j = 1 then blankPage else finishPage)"

section \<open>Facts about the model\<close>

subsection \<open>The entry guard and the trial order\<close>

lemma walkUp_None: "walkUp k None = None"
  by (cases k) simp_all

lemma isQuestionComplete_Nil: "isQuestionComplete []"
  by (simp add: isQuestionComplete_def walkUp_None)

lemma incomplete_nonempty: "\<not> isQuestionComplete radios \<Longrightarrow> radios \<noteq> []"
  using isQuestionComplete_Nil by auto

lemma aiChoice_bounds: "0 < n \<Longrightarrow> 0 \<le> aiChoice n i \<and> aiChoice n i < int n"
  by (simp add: aiChoice_def)

lemma filter_neq_length:
  assumes "distinct xs" and "k \<in> set xs"
  shows "length (filter (\<lambda>i. i \<noteq> k) xs) = length xs - 1"
  using assms
proof (induction xs)
  case Nil
  then show ?case by simp
next
  case (Cons x xs)
  show ?case
  proof (cases "x = k")
    case True
    with Cons.prems have "k \<notin> set xs" by simp
    then have "filter (\<lambda>i. i \<noteq> k) xs = xs" by (induction xs) auto
    with True show ?thesis by simp
  next
    case False
    with Cons.prems have "k \<in> set xs" "distinct xs" by auto
    with Cons.IH have "length (filter (\<lambda>i. i \<noteq> k) xs) = length xs - 1" by simp
    moreover from \<open>k \<in> set xs\<close> have "0 < length xs" by (cases xs) auto
    ultimately show ?thesis using False by simp
  qed
qed

lemma distinct_indices: "distinct (map int [0..<n])"
  by (simp add: distinct_map)

lemma set_indices: "set (map int [0..<n]) = {i. 0 \<le> i \<and> i < int n}"
proof
  show "set (map int [0..<n]) \<subseteq> {i. 0 \<le> i \<and> i < int n}" by auto
  show "{i. 0 \<le> i \<and> i < int n} \<subseteq> set (map int [0..<n])"
  proof
    fix i assume "i \<in> {i. 0 \<le> i \<and> i < int n}"
    then have "nat i < n" "int (nat i) = i" by auto
    then show "i \<in> set (map int [0..<n])" by (metis atLeast0LessThan image_eqI lessThan_iff set_map set_upt)
  qed
qed

lemma sorted_indices: "sorted (map int [0..<n])"
  by (simp add: sorted_map) 

lemma trialOrder_props:
  assumes "0 \<le> k" and "k < int n"
  shows "distinct (trialOrder n k)"
    and "set (trialOrder n k) = {i. 0 \<le> i \<and> i < int n}"
    and "length (trialOrder n k) = n"
    and "sorted (tl (trialOrder n k))"
proof -
  from assms have kin: "k \<in> set (map int [0..<n])" by (simp only: set_indices) simp
  show "distinct (trialOrder n k)"
    using distinct_indices[of n] by (simp add: trialOrder_def del: distinct_map)
  have "set (trialOrder n k) = insert k {i \<in> set (map int [0..<n]). i \<noteq> k}"
    by (simp add: trialOrder_def del: set_map)
  also have "\<dots> = {i. 0 \<le> i \<and> i < int n}"
    using assms unfolding set_indices by auto
  finally show "set (trialOrder n k) = {i. 0 \<le> i \<and> i < int n}" .
  from kin have "0 < n" by auto
  with filter_neq_length[OF distinct_indices kin] show "length (trialOrder n k) = n"
    by (simp add: trialOrder_def)
  show "sorted (tl (trialOrder n k))"
    using sorted_indices[of n] by (simp add: trialOrder_def sorted_wrt_filter del: sorted_map)
qed


subsection \<open>Selecting an option\<close>

lemma shape_length: "shape rs = shape radios \<Longrightarrow> length rs = length radios"
  unfolding shape_def by (metis length_map)

lemma shape_nth:
  assumes "shape rs = shape radios" and "p < length radios"
  shows "name (rs ! p) = name (radios ! p)" and "around (rs ! p) = around (radios ! p)"
proof -
  from shape_length[OF assms(1)] assms(2) have "p < length rs" by simp
  then have a: "map (\<lambda>r. (name r, around r)) rs ! p = (name (rs ! p), around (rs ! p))"
    by (rule nth_map)
  from assms(2) have b: "map (\<lambda>r. (name r, around r)) radios ! p = (name (radios ! p), around (radios ! p))"
    by (rule nth_map)
  from assms(1) have "map (\<lambda>r. (name r, around r)) rs = map (\<lambda>r. (name r, around r)) radios"
    unfolding shape_def .
  with a b have "(name (rs ! p), around (rs ! p)) = (name (radios ! p), around (radios ! p))"
    by metis
  then show "name (rs ! p) = name (radios ! p)" and "around (rs ! p) = around (radios ! p)"
    by simp_all
qed

lemma setChecked_keeps [simp]:
  "name (setChecked b e) = name e" "around (setChecked b e) = around e"
  by (simp_all add: setChecked_def)

lemma shape_update:
  "p < length rs \<Longrightarrow> shape (rs[p := setChecked b (rs ! p)]) = shape rs"
  unfolding shape_def by (simp add: map_update list_update_same_conv)

lemma shape_uncheckAll: "shape (uncheckAll ps rs) = shape rs"
  unfolding shape_def uncheckAll_def by (rule nth_equalityI) simp_all

lemma length_uncheckAll [simp]: "length (uncheckAll ps rs) = length rs"
  by (simp add: uncheckAll_def)

lemma selectRadio_shape:
  assumes "selectRadio rs i = Inr rs'"
  shows "shape rs' = shape rs"
proof (cases "at_index rs i")
  case None
  with assms show ?thesis by (simp add: selectRadio_def)
next
  case (Some radio)
  then have i: "nat i < length rs" by (auto simp: at_index_def split: if_splits)
  show ?thesis
  proof (cases "name radio = []")
    case True
    with assms Some i show ?thesis by (auto simp: selectRadio_def shape_update)
  next
    case False
    with assms Some obtain ps where ps: "nameQuery rs radio = Some ps"
      "rs' = (uncheckAll ps rs)[nat i := setChecked True (uncheckAll ps rs ! nat i)]"
      by (auto simp: selectRadio_def split: option.splits)
    from i have "shape rs' = shape (uncheckAll ps rs)"
      unfolding ps(2) by (simp add: shape_update)
    then show ?thesis by (simp add: shape_uncheckAll)
  qed
qed

lemma selectRadio_raises_shape:
  assumes "shape rs = shape radios"
  shows "(\<exists>e. selectRadio rs i = Inl e) \<longleftrightarrow> (\<exists>e. selectRadio radios i = Inl e)"
proof -
  have len: "length rs = length radios" using assms by (rule shape_length)
  show ?thesis
  proof (cases "0 \<le> i \<and> i < int (length radios)")
    case False
    then show ?thesis using len by (auto simp: selectRadio_def at_index_def)
  next
    case True
    then have p: "nat i < length radios" by auto
    note same = shape_nth[OF assms p]
    have "(\<exists>e. selectRadio xs i = Inl e) \<longleftrightarrow>
            (name (xs ! nat i) \<noteq> [] \<and> \<not> plainName (name (xs ! nat i))
             \<and> oddNameQuery (around (xs ! nat i)) = None)"
      if "length xs = length radios" for xs
      using that True
      by (auto simp: selectRadio_def at_index_def nameQuery_def split: option.splits)
    from this[OF len] this[OF refl] same show ?thesis by simp
  qed
qed

lemma trialReport_shape:
  assumes "shape rs = shape radios"
  shows "trialReport isTop pg rs i = trialReport isTop pg radios i"
proof -
  from selectRadio_raises_shape[OF assms, of i]
  show ?thesis
    unfolding trialReport_def by (auto split: sum.splits)
qed

lemma labelClick_shape:
  assumes "shape rs = shape radios"
  shows "labelClick rs i = labelClick radios i"
proof (cases "0 \<le> i \<and> i < int (length radios)")
  case False
  then show ?thesis using shape_length[OF assms] by (auto simp: labelClick_def at_index_def)
next
  case True
  then have p: "nat i < length radios" by auto
  from shape_nth(2)[OF assms p] True shape_length[OF assms]
  show ?thesis by (simp add: labelClick_def at_index_def)
qed

subsection \<open>The trial loop\<close>

lemma selections_append: "selections (xs @ ys) = selections xs @ selections ys"
  by (simp add: selections_def)

lemma selections_labelClick [simp]: "selections (labelClick rs i) = []"
  by (auto simp: labelClick_def selections_def split: option.splits)

lemma after_simps:
  "verdict (after acts r) = verdict r"
  "options (after acts r) = options r"
  "selections (trace (after acts r)) = selections acts @ selections (trace r)"
  by (simp_all add: after_def selections_append)

lemma selections_trial:
  "selections [SelectRadio i] = [i]"
  "selections (SelectRadio i # acts) = i # selections acts"
  "selections (acts @ [ClickCheckAnswer, DismissModal]) = selections acts"
  "selections [AskAI] = []"
  "selections [] = []"
  by (simp_all add: selections_def)

text \<open>One round of the loop, by what the trial comes to.\<close>

lemma tryOrder_step:
  "tryOrder isTop pages j rs (i # rest) =
     (case trialReport isTop (pages j) rs i of
        SelectRaised \<Rightarrow> \<lparr>verdict = Rejected Raised, options = rs, trace = [SelectRadio i]\<rparr>
      | NoCheckButton \<Rightarrow>
          after (SelectRadio i # labelClick rs i)
            (tryOrder isTop pages (Suc j) (projr (selectRadio rs i)) rest)
      | ModalRaised \<Rightarrow>
          \<lparr>verdict = Rejected Raised, options = projr (selectRadio rs i),
           trace = SelectRadio i # labelClick rs i @ [ClickCheckAnswer, DismissModal]\<rparr>
      | Reported res \<Rightarrow>
          if res = Correct then
            \<lparr>verdict = Solved i, options = projr (selectRadio rs i),
             trace = SelectRadio i # labelClick rs i @ [ClickCheckAnswer, DismissModal]\<rparr>
          else after (SelectRadio i # labelClick rs i @ [ClickCheckAnswer, DismissModal])
                 (tryOrder isTop pages (Suc j) (projr (selectRadio rs i)) rest))"
proof -
  have e: "e = Raised" for e :: exn by (cases e) simp
  show ?thesis
    using e by (auto simp: trialReport_def split: sum.splits)
qed

lemma shape_after_select:
  assumes "shape rs = shape radios" and "trialReport isTop pg rs i \<noteq> SelectRaised"
  shows "shape (projr (selectRadio rs i)) = shape radios"
proof -
  from assms(2) obtain rs' where "selectRadio rs i = Inr rs'"
    by (auto simp: trialReport_def split: sum.splits)
  with selectRadio_shape[OF this] assms(1) show ?thesis by simp
qed

lemma tryOrder_prefix:
  "\<exists>m\<le>length order. selections (trace (tryOrder isTop pages j rs order)) = take m order"
proof (induction order arbitrary: j rs)
  case Nil
  then show ?case by (simp add: selections_def)
next
  case (Cons i rest)
  from Cons.IH[of "Suc j" "projr (selectRadio rs i)"] obtain m where
    m: "m \<le> length rest"
       "selections (trace (tryOrder isTop pages (Suc j) (projr (selectRadio rs i)) rest)) = take m rest"
    by blast
  have "selections (trace (tryOrder isTop pages j rs (i # rest))) = take (Suc 0) (i # rest)
        \<or> selections (trace (tryOrder isTop pages j rs (i # rest))) = take (Suc m) (i # rest)"
    using m(2)
    by (auto simp add: tryOrder_step after_simps selections_trial simp del: tryOrder.simps
        split: report.splits)
  with m(1) show ?case
    by (metis Suc_leI Suc_le_mono length_Cons zero_less_Suc)
qed

lemma tryOrder_first:
  "selections (trace (tryOrder isTop pages j rs (i # rest))) \<noteq> [] \<and>
   hd (selections (trace (tryOrder isTop pages j rs (i # rest)))) = i"
  by (auto simp add: tryOrder_step after_simps selections_trial simp del: tryOrder.simps
      split: report.splits)

lemma goesOn_iff: "goesOn t \<longleftrightarrow> t \<noteq> Reported Correct \<and> t \<noteq> SelectRaised \<and> t \<noteq> ModalRaised"
proof (cases t)
  case (Reported res)
  then show ?thesis by (cases res) (simp_all add: goesOn_def)
qed (simp_all add: goesOn_def)

lemma tryOrder_goesOn:
  assumes "shape rs = shape radios" and "goesOn (trialReport isTop (pages j) radios i)"
  shows "tryOrder isTop pages j rs (i # rest) =
           after (SelectRadio i # labelClick radios i
                    @ (if trialReport isTop (pages j) radios i = NoCheckButton then []
                       else [ClickCheckAnswer, DismissModal]))
             (tryOrder isTop pages (Suc j) (projr (selectRadio rs i)) rest)"
    and "shape (projr (selectRadio rs i)) = shape radios"
proof -
  note r = trialReport_shape[OF assms(1), of isTop "pages j" i]
  from assms(2) r have g: "goesOn (trialReport isTop (pages j) rs i)" by simp
  then have "trialReport isTop (pages j) rs i \<noteq> SelectRaised" by (simp add: goesOn_iff)
  from shape_after_select[OF assms(1) this]
  show "shape (projr (selectRadio rs i)) = shape radios" .
  from g show "tryOrder isTop pages j rs (i # rest) =
           after (SelectRadio i # labelClick radios i
                    @ (if trialReport isTop (pages j) radios i = NoCheckButton then []
                       else [ClickCheckAnswer, DismissModal]))
             (tryOrder isTop pages (Suc j) (projr (selectRadio rs i)) rest)"
    unfolding r[symmetric] labelClick_shape[OF assms(1), symmetric]
    by (auto simp add: tryOrder_step goesOn_def simp del: tryOrder.simps)
qed

lemma selections_goesOn:
  "selections (SelectRadio i # labelClick radios i @ (if c then [] else [ClickCheckAnswer, DismissModal])) = [i]"
proof -
  have "selections [ClickCheckAnswer, DismissModal] = []" by (simp add: selections_def)
  then show ?thesis
    by (cases c) (simp_all add: selections_trial(2,5) selections_append)
qed

lemma tryOrder_passes:
  assumes "shape rs = shape radios"
    and "\<forall>q<length order. goesOn (trialReport isTop (pages (j + q)) radios (order ! q))"
  shows "verdict (tryOrder isTop pages j rs order) = Exhausted
         \<and> selections (trace (tryOrder isTop pages j rs order)) = order"
  using assms
proof (induction order arbitrary: j rs)
  case Nil
  then show ?case by (simp add: selections_def)
next
  case (Cons i rest)
  from Cons.prems(2) have here: "goesOn (trialReport isTop (pages j) radios i)"
    by (metis add.right_neutral length_Cons nth_Cons_0 zero_less_Suc)
  have later: "\<forall>q<length rest. goesOn (trialReport isTop (pages (Suc j + q)) radios (rest ! q))"
  proof (intro allI impI)
    fix q assume "q < length rest"
    then have "Suc q < length (i # rest)" by simp
    with Cons.prems(2) have "goesOn (trialReport isTop (pages (j + Suc q)) radios ((i # rest) ! Suc q))"
      by blast
    then show "goesOn (trialReport isTop (pages (Suc j + q)) radios (rest ! q))" by simp
  qed
  note step = tryOrder_goesOn[where pages = pages and j = j, OF Cons.prems(1) here]
  from Cons.IH[OF step(2) later]
  show ?case
    unfolding step(1) by (simp add: after_simps selections_goesOn)
qed

lemma tryOrder_stops:
  assumes "shape rs = shape radios"
    and "m < length order"
    and "trialReport isTop (pages (j + m)) radios (order ! m) = Reported Correct"
    and "\<forall>q<m. goesOn (trialReport isTop (pages (j + q)) radios (order ! q))"
  shows "verdict (tryOrder isTop pages j rs order) = Solved (order ! m)
         \<and> selections (trace (tryOrder isTop pages j rs order)) = take (Suc m) order"
  using assms
proof (induction order arbitrary: j m rs)
  case Nil
  then show ?case by simp
next
  case (Cons i rest)
  show ?case
  proof (cases m)
    case 0
    with Cons.prems(3) have "trialReport isTop (pages j) rs i = Reported Correct"
      by (simp add: trialReport_shape[OF Cons.prems(1)])
    with 0 show ?thesis
      by (simp add: tryOrder_step selections_trial del: tryOrder.simps)
  next
    case (Suc m')
    with Cons.prems(2) have a: "m' < length rest" by simp
    from Cons.prems(3) Suc
    have b: "trialReport isTop (pages (Suc j + m')) radios (rest ! m') = Reported Correct"
      by simp
    have c: "\<forall>q<m'. goesOn (trialReport isTop (pages (Suc j + q)) radios (rest ! q))"
    proof (intro allI impI)
      fix q assume "q < m'"
      then have "Suc q < m" using Suc by simp
      with Cons.prems(4) have "goesOn (trialReport isTop (pages (j + Suc q)) radios ((i # rest) ! Suc q))"
        by blast
      then show "goesOn (trialReport isTop (pages (Suc j + q)) radios (rest ! q))" by simp
    qed
    from Cons.prems(4) Suc have here: "goesOn (trialReport isTop (pages j) radios i)"
      by (metis add.right_neutral nth_Cons_0 zero_less_Suc)
    note step = tryOrder_goesOn[where pages = pages and j = j, OF Cons.prems(1) here]
    from Cons.IH[OF step(2) a b c] Suc
    show ?thesis
      unfolding step(1) by (simp add: after_simps selections_goesOn)
  qed
qed

text \<open>What a run that ends solved, or exhausted, has been through.\<close>

lemma tryOrder_solved:
  assumes "shape rs = shape radios"
    and "verdict (tryOrder isTop pages j rs order) = Solved i"
  shows "\<exists>m<length order. order ! m = i
           \<and> trialReport isTop (pages (j + m)) radios (order ! m) = Reported Correct
           \<and> (\<forall>q<m. goesOn (trialReport isTop (pages (j + q)) radios (order ! q)))
           \<and> selections (trace (tryOrder isTop pages j rs order)) = take (Suc m) order"
  using assms
proof (induction order arbitrary: j rs)
  case Nil
  then show ?case by simp
next
  case (Cons x rest)
  note r = trialReport_shape[OF Cons.prems(1), of isTop "pages j" x]
  show ?case
  proof (cases "trialReport isTop (pages j) radios x = Reported Correct")
    case True
    with Cons.prems(2) r have "x = i"
      by (simp add: tryOrder_step del: tryOrder.simps)
    moreover from True r
    have "selections (trace (tryOrder isTop pages j rs (x # rest))) = take (Suc 0) (x # rest)"
      by (simp add: tryOrder_step selections_trial del: tryOrder.simps)
    ultimately have "0 < length (x # rest) \<and> (x # rest) ! 0 = i
           \<and> trialReport isTop (pages (j + 0)) radios ((x # rest) ! 0) = Reported Correct
           \<and> (\<forall>q<0. goesOn (trialReport isTop (pages (j + q)) radios ((x # rest) ! q)))
           \<and> selections (trace (tryOrder isTop pages j rs (x # rest))) = take (Suc 0) (x # rest)"
      using True by simp
    then show ?thesis by blast
  next
    case False
    with Cons.prems(2) r have here: "goesOn (trialReport isTop (pages j) radios x)"
      unfolding goesOn_iff
      by (auto simp add: tryOrder_step simp del: tryOrder.simps split: report.splits)
    note step = tryOrder_goesOn[where pages = pages and j = j, OF Cons.prems(1) here]
    from Cons.prems(2)
    have "verdict (tryOrder isTop pages (Suc j) (projr (selectRadio rs x)) rest) = Solved i"
      unfolding step(1) by (simp add: after_simps)
    from Cons.IH[OF step(2) this] obtain m where m: "m < length rest" "rest ! m = i"
      "trialReport isTop (pages (Suc j + m)) radios (rest ! m) = Reported Correct"
      "\<forall>q<m. goesOn (trialReport isTop (pages (Suc j + q)) radios (rest ! q))"
      "selections (trace (tryOrder isTop pages (Suc j) (projr (selectRadio rs x)) rest)) = take (Suc m) rest"
      by blast
    have early: "\<forall>q<Suc m. goesOn (trialReport isTop (pages (j + q)) radios ((x # rest) ! q))"
    proof (intro allI impI)
      fix q assume q: "q < Suc m"
      show "goesOn (trialReport isTop (pages (j + q)) radios ((x # rest) ! q))"
      proof (cases q)
        case 0
        with here show ?thesis by simp
      next
        case (Suc q')
        with q m(4) show ?thesis by simp
      qed
    qed
    have "selections (trace (tryOrder isTop pages j rs (x # rest))) = take (Suc (Suc m)) (x # rest)"
      unfolding step(1) using m(5) by (simp add: after_simps selections_goesOn)
    with m(1,2,3) early
    have "Suc m < length (x # rest) \<and> (x # rest) ! Suc m = i
           \<and> trialReport isTop (pages (j + Suc m)) radios ((x # rest) ! Suc m) = Reported Correct
           \<and> (\<forall>q<Suc m. goesOn (trialReport isTop (pages (j + q)) radios ((x # rest) ! q)))
           \<and> selections (trace (tryOrder isTop pages j rs (x # rest))) = take (Suc (Suc m)) (x # rest)"
      by simp
    then show ?thesis by blast
  qed
qed

lemma tryOrder_exhausted:
  assumes "shape rs = shape radios"
    and "verdict (tryOrder isTop pages j rs order) = Exhausted"
  shows "(\<forall>q<length order. goesOn (trialReport isTop (pages (j + q)) radios (order ! q)))
         \<and> selections (trace (tryOrder isTop pages j rs order)) = order"
  using assms
proof (induction order arbitrary: j rs)
  case Nil
  then show ?case by (simp add: selections_def)
next
  case (Cons x rest)
  note r = trialReport_shape[OF Cons.prems(1), of isTop "pages j" x]
  from Cons.prems(2) r have here: "goesOn (trialReport isTop (pages j) radios x)"
    unfolding goesOn_iff
    by (auto simp add: tryOrder_step simp del: tryOrder.simps split: report.splits)
  note step = tryOrder_goesOn[where pages = pages and j = j, OF Cons.prems(1) here]
  from Cons.prems(2)
  have "verdict (tryOrder isTop pages (Suc j) (projr (selectRadio rs x)) rest) = Exhausted"
    unfolding step(1) by (simp add: after_simps)
  from Cons.IH[OF step(2) this]
  have IH: "\<forall>q<length rest. goesOn (trialReport isTop (pages (Suc j + q)) radios (rest ! q))"
    "selections (trace (tryOrder isTop pages (Suc j) (projr (selectRadio rs x)) rest)) = rest"
    by simp_all
  have "\<forall>q<length (x # rest). goesOn (trialReport isTop (pages (j + q)) radios ((x # rest) ! q))"
  proof (intro allI impI)
    fix q assume q: "q < length (x # rest)"
    show "goesOn (trialReport isTop (pages (j + q)) radios ((x # rest) ! q))"
    proof (cases q)
      case 0
      with here show ?thesis by simp
    next
      case (Suc q')
      with q IH(1) show ?thesis by simp
    qed
  qed
  moreover have "selections (trace (tryOrder isTop pages j rs (x # rest))) = x # rest"
    unfolding step(1) using IH(2) by (simp add: after_simps selections_goesOn)
  ultimately show ?case by blast
qed

lemma tryOrder_unknown_as_wrong:
  assumes "shape rs = shape radios"
    and "\<forall>q<length order. trialReport isTop (pages' (j + q)) radios (order ! q)
            = unknownAsWrong (trialReport isTop (pages (j + q)) radios (order ! q))"
  shows "tryOrder isTop pages' j rs order = tryOrder isTop pages j rs order"
  using assms
proof (induction order arbitrary: j rs)
  case Nil
  then show ?case by simp
next
  case (Cons i rest)
  from Cons.prems(2)
  have here: "trialReport isTop (pages' j) radios i = unknownAsWrong (trialReport isTop (pages j) radios i)"
    by (metis add.right_neutral length_Cons nth_Cons_0 zero_less_Suc)
  have later: "\<forall>q<length rest. trialReport isTop (pages' (Suc j + q)) radios (rest ! q)
            = unknownAsWrong (trialReport isTop (pages (Suc j + q)) radios (rest ! q))"
  proof (intro allI impI)
    fix q assume "q < length rest"
    then have "Suc q < length (i # rest)" by simp
    with Cons.prems(2)
    have "trialReport isTop (pages' (j + Suc q)) radios ((i # rest) ! Suc q)
            = unknownAsWrong (trialReport isTop (pages (j + Suc q)) radios ((i # rest) ! Suc q))"
      by blast
    then show "trialReport isTop (pages' (Suc j + q)) radios (rest ! q)
            = unknownAsWrong (trialReport isTop (pages (Suc j + q)) radios (rest ! q))" by simp
  qed
  note r = trialReport_shape[OF Cons.prems(1), of isTop _ i]
  show ?case
  proof (cases "trialReport isTop (pages j) radios i = SelectRaised")
    case True
    with here r show ?thesis
      by (simp add: tryOrder_step unknownAsWrong_def del: tryOrder.simps)
  next
    case False
    then have "trialReport isTop (pages j) rs i \<noteq> SelectRaised" by (simp add: r)
    from shape_after_select[OF Cons.prems(1) this]
    have "shape (projr (selectRadio rs i)) = shape radios" .
    from Cons.IH[OF this later]
    have IH: "tryOrder isTop pages' (Suc j) (projr (selectRadio rs i)) rest
          = tryOrder isTop pages (Suc j) (projr (selectRadio rs i)) rest" .
    from here show ?thesis
      by (auto simp add: tryOrder_step unknownAsWrong_def r IH simp del: tryOrder.simps
          split: report.splits if_splits)
  qed
qed

lemma tryOrder_raised:
  assumes "shape rs = shape radios"
    and "m < length order"
    and "trialReport isTop (pages (j + m)) radios (order ! m) = SelectRaised
         \<or> trialReport isTop (pages (j + m)) radios (order ! m) = ModalRaised"
    and "\<forall>q<m. goesOn (trialReport isTop (pages (j + q)) radios (order ! q))"
  shows "verdict (tryOrder isTop pages j rs order) = Rejected Raised
         \<and> selections (trace (tryOrder isTop pages j rs order)) = take (Suc m) order"
  using assms
proof (induction order arbitrary: j m rs)
  case Nil
  then show ?case by simp
next
  case (Cons i rest)
  show ?case
  proof (cases m)
    case 0
    with Cons.prems(3) have "trialReport isTop (pages j) rs i = SelectRaised
         \<or> trialReport isTop (pages j) rs i = ModalRaised"
      by (simp add: trialReport_shape[OF Cons.prems(1)])
    with 0 show ?thesis
      by (auto simp add: tryOrder_step selections_trial simp del: tryOrder.simps)
  next
    case (Suc m')
    with Cons.prems(2) have a: "m' < length rest" by simp
    from Cons.prems(3) Suc
    have b: "trialReport isTop (pages (Suc j + m')) radios (rest ! m') = SelectRaised
         \<or> trialReport isTop (pages (Suc j + m')) radios (rest ! m') = ModalRaised"
      by simp
    have c: "\<forall>q<m'. goesOn (trialReport isTop (pages (Suc j + q)) radios (rest ! q))"
    proof (intro allI impI)
      fix q assume "q < m'"
      then have "Suc q < m" using Suc by simp
      with Cons.prems(4) have "goesOn (trialReport isTop (pages (j + Suc q)) radios ((i # rest) ! Suc q))"
        by blast
      then show "goesOn (trialReport isTop (pages (Suc j + q)) radios (rest ! q))" by simp
    qed
    from Cons.prems(4) Suc have here: "goesOn (trialReport isTop (pages j) radios i)"
      by (metis add.right_neutral nth_Cons_0 zero_less_Suc)
    note step = tryOrder_goesOn[where pages = pages and j = j, OF Cons.prems(1) here]
    from Cons.IH[OF step(2) a b c] Suc
    show ?thesis
      unfolding step(1) by (simp add: after_simps selections_goesOn)
  qed
qed

lemma first_correct:
  fixes n :: nat and rep :: "nat \<Rightarrow> report"
  assumes "\<exists>j<n. rep j = Reported Correct"
  shows "\<exists>j<n. rep j = Reported Correct \<and> (\<forall>q<j. rep q \<noteq> Reported Correct)"
proof -
  define m where "m = (LEAST j. j < n \<and> rep j = Reported Correct)"
  from assms have m: "m < n \<and> rep m = Reported Correct"
    unfolding m_def by (rule LeastI_ex)
  have "\<forall>q<m. rep q \<noteq> Reported Correct"
  proof (intro allI impI)
    fix q assume q: "q < m"
    then have "\<not> (q < n \<and> rep q = Reported Correct)"
      unfolding m_def by (rule not_less_Least)
    moreover from q m have "q < n" by simp
    ultimately show "rep q \<noteq> Reported Correct" by simp
  qed
  with m show ?thesis by blast
qed

subsection \<open>The run as a whole\<close>

lemma solveOneQuestion_asked:
  assumes "\<not> isQuestionComplete radios" and "getLabels radios = Inr labels"
  shows "solveOneQuestion isTop (Replied reply) pages radios =
           after [AskAI] (tryOrder isTop pages 0 radios (orderOf reply radios))"
  using assms by (simp add: solveOneQuestion_def orderOf_def Let_def)

lemma solveOneQuestion_unread:
  assumes "\<not> isQuestionComplete radios" and "getLabels radios = Inl e"
  shows "solveOneQuestion isTop sent pages radios =
           \<lparr>verdict = Rejected e, options = radios, trace = []\<rparr>"
  using assms by (simp add: solveOneQuestion_def)

lemma solveOneQuestion_send_throws:
  assumes "\<not> isQuestionComplete radios" and "getLabels radios = Inr labels"
  shows "solveOneQuestion isTop SendThrows pages radios =
           \<lparr>verdict = Rejected Raised, options = radios, trace = [AskAI]\<rparr>"
  using assms by (simp add: solveOneQuestion_def)

lemma length_orderOf:
  assumes "radios \<noteq> []"
  shows "length (orderOf reply radios) = length radios"
proof -
  from assms have "0 < length radios" by simp
  from aiChoice_bounds[OF this] show ?thesis
    unfolding orderOf_def using trialOrder_props(3) by blast
qed

text \<open>The options a run selects are an initial part of its trial order.\<close>

lemma selections_prefix:
  "\<exists>m\<le>length (orderOf reply radios).
      selections (trace (solveOneQuestion isTop (Replied reply) pages radios)) = take m (orderOf reply radios)"
proof (cases "isQuestionComplete radios")
  case True
  then have "selections (trace (solveOneQuestion isTop (Replied reply) pages radios)) = take 0 (orderOf reply radios)"
    by (simp add: solveOneQuestion_def selections_trial)
  then show ?thesis by blast
next
  case False
  show ?thesis
  proof (cases "getLabels radios")
    case (Inl e)
    from solveOneQuestion_unread[OF False Inl]
    have "selections (trace (solveOneQuestion isTop (Replied reply) pages radios)) = take 0 (orderOf reply radios)"
      by (simp add: selections_trial)
    then show ?thesis by blast
  next
    case (Inr labels)
    from tryOrder_prefix[of "orderOf reply radios" isTop pages 0 radios] obtain m where
      m: "m \<le> length (orderOf reply radios)"
         "selections (trace (tryOrder isTop pages 0 radios (orderOf reply radios))) = take m (orderOf reply radios)"
      by blast
    have "selections (trace (solveOneQuestion isTop (Replied reply) pages radios)) = take m (orderOf reply radios)"
      unfolding solveOneQuestion_asked[OF False Inr] using m(2)
      by (simp add: after_simps selections_trial)
    with m(1) show ?thesis by blast
  qed
qed


subsection \<open>The example pages, evaluated\<close>

lemma exampleGroup_incomplete: "\<not> isQuestionComplete exampleGroup"
  by code_simp

lemma answeredGroup_complete: "isQuestionComplete answeredGroup"
  by code_simp

lemma length_exampleGroup: "length exampleGroup = 4"
  by (simp add: exampleGroup_def)

lemma exampleGroup_labels:
  "getLabels exampleGroup =
     Inr [''The mitochondrion'', ''The mitochondrion'', ''The mitochondrion'', ''The mitochondrion'']"
  by code_simp

lemma exampleGroup_selects: "selectRadio exampleGroup i \<noteq> Inl e"
proof -
  have plain: "plainName ''q1''" by code_simp
  have "name radio = ''q1''" if "at_index exampleGroup i = Some radio" for radio
  proof -
    from that have "radio \<in> set exampleGroup"
      by (auto simp: at_index_def split: if_splits)
    then show ?thesis by (auto simp: exampleGroup_def exampleRadio_def)
  qed
  with plain show ?thesis
    by (auto simp: selectRadio_def nameQuery_def split: option.splits)
qed

lemma exampleGroup_report:
  "trialReport isTop pg exampleGroup i =
     (if \<not> clickCheckAnswer pg then NoCheckButton
      else case dismissFeedbackModal isTop (document pg) (toTop pg) of
             Inl e \<Rightarrow> ModalRaised
           | Inr result \<Rightarrow> Reported result)"
  using exampleGroup_selects[of i] by (auto simp: trialReport_def split: sum.splits)

lemma tryAgainPage_wrong: "trialReport True tryAgainPage exampleGroup i = Reported Wrong"
proof -
  have "clickCheckAnswer tryAgainPage" by code_simp
  moreover have "dismissFeedbackModal True (document tryAgainPage) (toTop tryAgainPage) = Inr Wrong"
    by code_simp
  ultimately show ?thesis by (simp add: exampleGroup_report)
qed

lemma finishPage_correct: "trialReport True finishPage exampleGroup i = Reported Correct"
proof -
  have "clickCheckAnswer finishPage" by code_simp
  moreover have "dismissFeedbackModal True (document finishPage) (toTop finishPage) = Inr Correct"
    by code_simp
  ultimately show ?thesis by (simp add: exampleGroup_report)
qed

lemma blankPage_unknown: "trialReport True blankPage exampleGroup i = Reported Unknown"
proof -
  have "clickCheckAnswer blankPage" by code_simp
  moreover have "dismissFeedbackModal True (document blankPage) (toTop blankPage) = Inr Unknown"
    by code_simp
  ultimately show ?thesis by (simp add: exampleGroup_report)
qed

lemma thirdTimeLucky_reports:
  "trialReport True (thirdTimeLucky 0) exampleGroup i = Reported Wrong"
  "trialReport True (thirdTimeLucky 1) exampleGroup i = Reported Unknown"
  "trialReport True (thirdTimeLucky 2) exampleGroup i = Reported Correct"
  by (simp_all add: thirdTimeLucky_def tryAgainPage_wrong blankPage_unknown finishPage_correct)

text \<open>
  A whole run: the AI suggests the second option and the page answers with Finish.
  The option is selected, its label clicked, the answer checked and the modal
  dismissed; the option states differ from the given ones in that option alone.
\<close>

lemma exampleGroup_run:
  "solveOneQuestion True (Replied (Res None (Num 1) (Some ''B''))) alwaysFinish exampleGroup
     = \<lparr>verdict = Solved 1,
        options = exampleGroup[1 := setChecked True (exampleRadio False)],
        trace = [AskAI, SelectRadio 1, ClickLabel 1, ClickCheckAnswer, DismissModal]\<rparr>"
  by code_simp

text \<open>
  A name with a double quote: the first selection raises, whatever the page would
  have shown. An id with a double quote and no enclosing label: reading the labels
  raises, before the AI is asked.
\<close>

lemma quoted_name_rejects:
  "\<not> isQuestionComplete quotedGroup
   \<and> solveOneQuestion True (Replied (Res None (Num 0) (Some ''A''))) alwaysFinish quotedGroup
       = \<lparr>verdict = Rejected Raised, options = quotedGroup, trace = [AskAI, SelectRadio 0]\<rparr>"
  by code_simp

lemma quoted_id_rejects:
  "\<not> isQuestionComplete quotedIdGroup
   \<and> solveOneQuestion True (Replied (Res None (Num 0) (Some ''A''))) alwaysFinish quotedIdGroup
       = \<lparr>verdict = Rejected Raised, options = quotedIdGroup, trace = []\<rparr>"
  by code_simp

subsection \<open>The deep search and the document\<close>

lemma matches_button: "matches (Tag ''button'') b = isButton b"
  by (cases b) auto

lemma matches_Star: "matches Star b \<longleftrightarrow> (\<exists>t cl at w h ks sr. b = Elem t cl at w h ks sr)"
  by (cases b) auto

lemma elementsOf_Elem: "b \<in> set (elementsOf n) \<Longrightarrow> \<exists>t cl at w h ks sr. b = Elem t cl at w h ks sr"
  by (induction n) auto

lemma set_querySelectorAll:
  "set (querySelectorAll root sel) = {b. (\<exists>n \<in> set root. b \<in> set (elementsOf n)) \<and> matches sel b}"
  by (auto simp: querySelectorAll_def)

lemma set_light: "set (querySelectorAll root Star) = {b. \<exists>n \<in> set root. b \<in> set (elementsOf n)}"
  using elementsOf_Elem by (auto simp: set_querySelectorAll matches_Star)

text \<open>Elements of the light tree are in the document.\<close>

lemma elementsOf_inDocument:
  "inDocument root n \<Longrightarrow> b \<in> set (elementsOf n) \<Longrightarrow> inDocument root b"
proof (induction n arbitrary: b)
  case (Text s)
  then show ?case by simp
next
  case (Elem t cl at w h ks sr)
  show ?case
  proof (cases "b = Elem t cl at w h ks sr")
    case True
    with Elem.prems show ?thesis by simp
  next
    case False
    with Elem.prems obtain k where k: "k \<in> set ks" "b \<in> set (elementsOf k)" by auto
    from k(2) obtain t' cl' at' w' h' ks' sr' where ke: "k = Elem t' cl' at' w' h' ks' sr'"
      by (cases k) auto
    from k(1) have "Elem t' cl' at' w' h' ks' sr' \<in> set (childNodes (Elem t cl at w h ks sr))"
      unfolding ke by simp
    with Elem.prems(1) have "inDocument root k"
      unfolding ke by (rule inDocument.child)
    from Elem.IH(1)[OF k(1) this k(2)] show ?thesis .
  qed
qed

lemma light_inDocument:
  assumes "b \<in> set (querySelectorAll root Star)"
  shows "inDocument root b"
proof -
  from assms obtain n where n: "n \<in> set root" "b \<in> set (elementsOf n)"
    by (auto simp: set_light)
  from n(2) obtain t cl at w h ks sr where ne: "n = Elem t cl at w h ks sr"
    by (cases n) auto
  from n(1) have "inDocument root n" unfolding ne by (rule inDocument.top)
  then show ?thesis using n(2) by (rule elementsOf_inDocument)
qed

text \<open>What is in the document of a shadow root is in the document of its host.\<close>

lemma shadow_inDocument:
  assumes "inDocument tree b" and "inDocument root host" and "shadowOf host = Some tree"
  shows "inDocument root b"
  using assms
proof (induction rule: inDocument.induct)
  case (top t cl at w h ks sr)
  from top.prems(1) top.prems(2) top.hyps show ?case by (rule inDocument.shadow)
next
  case (child host' t cl at w h ks sr)
  from child.IH[OF child.prems] child.hyps(2) show ?case by (rule inDocument.child)
next
  case (shadow host' tree' t cl at w h ks sr)
  from shadow.IH[OF shadow.prems] shadow.hyps(2) shadow.hyps(3) show ?case
    by (rule inDocument.shadow)
qed

lemma child_in_elementsOf:
  "hst \<in> set (elementsOf n) \<Longrightarrow> c \<in> set (childNodes hst) \<Longrightarrow> c = Elem t cl at w h ks sr
   \<Longrightarrow> c \<in> set (elementsOf n)"
proof (induction n)
  case (Text s)
  then show ?case by simp
next
  case (Elem t' cl' at' w' h' ks' sr')
  show ?case
  proof (cases "hst = Elem t' cl' at' w' h' ks' sr'")
    case True
    with Elem.prems have "c \<in> set ks'" by simp
    moreover from Elem.prems(3) have "c \<in> set (elementsOf c)" by simp
    ultimately show ?thesis by auto
  next
    case False
    with Elem.prems obtain k where k: "k \<in> set ks'" "hst \<in> set (elementsOf k)" by auto
    from Elem.IH(1)[OF k(1) k(2) Elem.prems(2) Elem.prems(3)] k(1) show ?thesis by auto
  qed
qed

text \<open>
  An element of the document is in the light tree or in the document of a shadow
  root hosted in the light tree.
\<close>

lemma inDocument_cases:
  assumes "inDocument root b"
  shows "b \<in> set (querySelectorAll root Star)
         \<or> (\<exists>el \<in> set (querySelectorAll root Star). \<exists>tree. shadowOf el = Some tree \<and> inDocument tree b)"
  using assms
proof (induction rule: inDocument.induct)
  case (top t cl at w h ks sr)
  have "Elem t cl at w h ks sr \<in> set (elementsOf (Elem t cl at w h ks sr))" by simp
  with top have "Elem t cl at w h ks sr \<in> set (querySelectorAll root Star)"
    unfolding set_light by blast
  then show ?case by blast
next
  case (child hst t cl at w h ks sr)
  from child.IH show ?case
  proof
    assume "hst \<in> set (querySelectorAll root Star)"
    then obtain n where n: "n \<in> set root" "hst \<in> set (elementsOf n)" by (auto simp: set_light)
    from child_in_elementsOf[OF n(2) child.hyps(2) refl] n(1)
    have "Elem t cl at w h ks sr \<in> set (querySelectorAll root Star)"
      unfolding set_light by blast
    then show ?thesis by blast
  next
    assume "\<exists>el \<in> set (querySelectorAll root Star). \<exists>tree. shadowOf el = Some tree \<and> inDocument tree hst"
    then obtain el tree where e: "el \<in> set (querySelectorAll root Star)" "shadowOf el = Some tree"
      "inDocument tree hst" by blast
    from e(3) child.hyps(2) have "inDocument tree (Elem t cl at w h ks sr)" by (rule inDocument.child)
    with e(1) e(2) show ?thesis by blast
  qed
next
  case (shadow hst tree t cl at w h ks sr)
  from shadow.IH show ?case
  proof
    assume l: "hst \<in> set (querySelectorAll root Star)"
    from shadow.hyps(3) have "inDocument tree (Elem t cl at w h ks sr)" by (rule inDocument.top)
    with l shadow.hyps(2) show ?thesis by blast
  next
    assume "\<exists>el \<in> set (querySelectorAll root Star). \<exists>tree. shadowOf el = Some tree \<and> inDocument tree hst"
    then obtain el tree' where e: "el \<in> set (querySelectorAll root Star)" "shadowOf el = Some tree'"
      "inDocument tree' hst" by blast
    from e(3) shadow.hyps(2) shadow.hyps(3) have "inDocument tree' (Elem t cl at w h ks sr)"
      by (rule inDocument.shadow)
    with e(1) e(2) show ?thesis by blast
  qed
qed

text \<open>The deep search finds exactly the matching elements of the document.\<close>

lemma set_deepFind:
  "set (deepFind root sel) = {b. inDocument root b \<and> matches sel b}"
proof (induction root sel rule: deepFind.induct)
  case (1 root sel)
  have IH: "set (deepFind tree sel) = {b. inDocument tree b \<and> matches sel b}"
    if "el \<in> set (querySelectorAll root Star)" "shadowOf el = Some tree" for el tree
    using 1 that by blast
  have unfold: "set (deepFind root sel) =
      set (querySelectorAll root sel)
      \<union> (\<Union>el \<in> set (querySelectorAll root Star).
            case shadowOf el of Some tree \<Rightarrow> set (deepFind tree sel) | None \<Rightarrow> {})"
    by (subst deepFind.simps) (auto split: option.splits)
  show ?case
  proof (intro set_eqI iffI)
    fix b assume "b \<in> set (deepFind root sel)"
    then consider "b \<in> set (querySelectorAll root sel)"
      | el tree where "el \<in> set (querySelectorAll root Star)" "shadowOf el = Some tree"
          "b \<in> set (deepFind tree sel)"
      unfolding unfold by (auto split: option.splits)
    then show "b \<in> {b. inDocument root b \<and> matches sel b}"
    proof cases
      case 1
      then have m: "(\<exists>n \<in> set root. b \<in> set (elementsOf n))" "matches sel b"
        unfolding set_querySelectorAll by auto
      from m(1) have "b \<in> set (querySelectorAll root Star)"
        unfolding set_light by simp
      note this m(2)
      with light_inDocument show ?thesis by simp
    next
      case 2
      from 2(3) IH[OF 2(1) 2(2)] have "inDocument tree b" "matches sel b" by auto
      with shadow_inDocument[OF _ light_inDocument[OF 2(1)] 2(2)] show ?thesis by simp
    qed
  next
    fix b assume "b \<in> {b. inDocument root b \<and> matches sel b}"
    then have b: "inDocument root b" "matches sel b" by auto
    from inDocument_cases[OF b(1)] show "b \<in> set (deepFind root sel)"
    proof
      assume "b \<in> set (querySelectorAll root Star)"
      then have "\<exists>n \<in> set root. b \<in> set (elementsOf n)"
        unfolding set_light by simp
      with b(2) have "b \<in> set (querySelectorAll root sel)"
        unfolding set_querySelectorAll by simp
      then show ?thesis unfolding unfold by simp
    next
      assume "\<exists>el \<in> set (querySelectorAll root Star). \<exists>tree. shadowOf el = Some tree \<and> inDocument tree b"
      then obtain el tree where e: "el \<in> set (querySelectorAll root Star)" "shadowOf el = Some tree"
        "inDocument tree b" by blast
      with IH[OF e(1) e(2)] b(2) have "b \<in> set (deepFind tree sel)" by simp
      with e(1) e(2) show ?thesis unfolding unfold by force
    qed
  qed
qed

subsection \<open>The keyword loops\<close>

lemma visibleButton_None:
  "visibleButton doc kws = None \<longleftrightarrow> (\<forall>b. \<not> visibleMatch doc kws b)"
proof (induction kws)
  case Nil
  then show ?case by (simp add: visibleMatch_def)
next
  case (Cons kw kws)
  have "filter isVisible (deepFindByText doc (Tag ''button'') kw) = []
        \<longleftrightarrow> (\<forall>b. \<not> (inDocument doc b \<and> isButton b \<and> isVisible b \<and> hasText b kw))"
    by (auto simp: deepFindByText_def filter_empty_conv set_deepFind matches_button)
  with Cons.IH show ?case
    by (auto simp: visibleMatch_def list_ex_iff split: list.splits)
qed

lemma visibleButton_Some:
  "visibleButton doc kws = Some b \<Longrightarrow> visibleMatch doc kws b"
proof (induction kws)
  case Nil
  then show ?case by simp
next
  case (Cons kw kws)
  show ?case
  proof (cases "filter isVisible (deepFindByText doc (Tag ''button'') kw)")
    case Nil
    with Cons have "visibleMatch doc kws b" by simp
    then show ?thesis by (auto simp add: visibleMatch_def list_ex_iff)
  next
    case (Cons x xs)
    with Cons.prems have "x = b" by simp
    with Cons have "b \<in> set (filter isVisible (deepFindByText doc (Tag ''button'') kw))" by simp
    then show ?thesis
      by (simp add: deepFindByText_def visibleMatch_def list_ex_iff set_deepFind matches_button)
  qed
qed

lemma isVisible_sizes:
  "offsetWidth b = Px w \<Longrightarrow> offsetHeight b = Px h \<Longrightarrow> isVisible b \<longleftrightarrow> w \<noteq> 0 \<and> h \<noteq> 0"
  by (simp add: isVisible_def)

lemma isVisible_throws:
  "offsetWidth b = Throws \<Longrightarrow> isVisible b"
  "offsetWidth b = Px (Suc w) \<Longrightarrow> offsetHeight b = Throws \<Longrightarrow> isVisible b"
  by (simp_all add: isVisible_def)

lemma shadowed_button_inDocument: "inDocument shadowedTryAgainDoc (button ''Try Again'' 90 30)"
proof -
  have 1: "inDocument shadowedTryAgainDoc
             (Elem ''main'' [] [] (Px 800) (Px 600) [button ''Finish'' 90 30, outerHost] None)"
    by (rule inDocument.top) (simp add: shadowedTryAgainDoc_def)
  have 2: "inDocument shadowedTryAgainDoc outerHost"
    unfolding outerHost_def
    by (rule inDocument.child[OF 1]) (simp add: outerHost_def)
  have 3: "inDocument shadowedTryAgainDoc (Elem ''div'' [] [] (Px 600) (Px 400) [innerHost] None)"
    by (rule inDocument.shadow[OF 2]) (simp add: outerHost_def, simp)
  have 4: "inDocument shadowedTryAgainDoc innerHost"
    unfolding innerHost_def
    by (rule inDocument.child[OF 3]) (simp add: innerHost_def)
  show ?thesis
    unfolding button_def
    by (rule inDocument.shadow[OF 4]) (simp add: innerHost_def, simp add: button_def)
qed

lemma top_button_inDocument:
  "inDocument [button l w h, button l' w' h'] (button l w h)"
  "inDocument [button l w h, button l' w' h'] (button l' w' h')"
  unfolding button_def by (rule inDocument.top, simp)+

subsection \<open>The completion walk\<close>

lemma walkUp_find:
  "walkUp k el = (case find decides (inspected k el) of
                    None \<Rightarrow> None
                  | Some t \<Rightarrow> Some (\<not> testIgnoreCase ''INCOMPLETE'' t))"
proof (induction k el rule: walkUp.induct)
  case (1 el)
  then show ?case by simp
next
  case (2 k)
  then show ?case by simp
next
  case (3 k el)
  then show ?case
    by (simp add: Let_def decides_def)
qed

lemma length_inspected: "length (inspected k el) \<le> k"
  by (induction k el rule: inspected.induct) simp_all

subsection \<open>The letter of the answer\<close>

lemma letter_codes:
  "char_of (65::nat) = CHR ''A''" "char_of (66::nat) = CHR ''B''" "char_of (67::nat) = CHR ''C''"
  "char_of (68::nat) = CHR ''D''" "char_of (69::nat) = CHR ''E''" "char_of (70::nat) = CHR ''F''"
  by code_simp+

lemma inAF_cases:
  assumes "inAF c"
  shows "c = CHR ''A'' \<or> c = CHR ''B'' \<or> c = CHR ''C'' \<or> c = CHR ''D'' \<or> c = CHR ''E'' \<or> c = CHR ''F''"
proof -
  from assms have "(of_char c :: nat) \<in> {65, 66, 67, 68, 69, 70}"
    unfolding inAF_def by auto
  then have "char_of (of_char c :: nat) \<in> char_of ` {65::nat, 66, 67, 68, 69, 70}"
    by (rule imageI)
  then show ?thesis by (simp add: letter_codes)
qed

lemma indexOf_letter:
  assumes "inAF c"
  shows "indexOf letters [c] = (of_char c :: int) - 65"
  using inAF_cases[OF assms] by (auto simp: letters_def)

lemma letterIdx_eq:
  "letterIdx rawText =
     (case filter inAF (toUpperCase rawText) of [] \<Rightarrow> -1 | c # _ \<Rightarrow> (of_char c :: int) - 65)"
proof (cases "filter inAF (toUpperCase rawText)")
  case Nil
  then show ?thesis by (simp add: letterIdx_def letters_def)
next
  case (Cons c cs)
  then have "c \<in> set (filter inAF (toUpperCase rawText))" by simp
  then have "inAF c" by simp
  with Cons show ?thesis by (simp add: letterIdx_def indexOf_letter)
qed

lemma answerIndex_eq:
  "answerIndex rawText =
     (case filter inAF (toUpperCase rawText) of [] \<Rightarrow> 0 | c # _ \<Rightarrow> (of_char c :: int) - 65)"
proof (cases "filter inAF (toUpperCase rawText)")
  case Nil
  then show ?thesis by (simp add: answerIndex_def letterIdx_eq)
next
  case (Cons c cs)
  then have "c \<in> set (filter inAF (toUpperCase rawText))" by simp
  then have "inAF c" by simp
  then have "(65::int) \<le> of_char c"
    unfolding inAF_def by (metis of_nat_le_iff of_nat_numeral of_nat_of_char)
  with Cons show ?thesis by (simp add: answerIndex_def letterIdx_eq)
qed

lemma answerIndex_range: "0 \<le> answerIndex rawText \<and> answerIndex rawText \<le> 5"
proof (cases "filter inAF (toUpperCase rawText)")
  case Nil
  then show ?thesis by (simp add: answerIndex_eq)
next
  case (Cons c cs)
  then have "c \<in> set (filter inAF (toUpperCase rawText))" by simp
  then have "inAF c" by simp
  from inAF_cases[OF this] Cons show ?thesis by (auto simp: answerIndex_eq)
qed

lemma rawContent_raises:
  "rawContent data = Inl Raised \<longleftrightarrow>
     data = JNull
     \<or> (\<exists>choices choice message content.
           getProp data ''choices'' = Some choices \<and> choices \<noteq> JNull
           \<and> getFirst choices = Some choice \<and> choice \<noteq> JNull
           \<and> getProp choice ''message'' = Some message \<and> message \<noteq> JNull
           \<and> getProp message ''content'' = Some content \<and> content \<noteq> JNull
           \<and> (\<forall>s. content \<noteq> JStr s))"
  by (auto simp: rawContent_def split: option.splits json.splits)

section \<open>The claims\<close>

text \<open>
  Claim C2. A group that \<open>isQuestionComplete\<close> reports complete is skipped:
  \<open>solveOneQuestion\<close> returns at once, its trace is empty (no AI request, no
  selection, no Check Answer click) and the option states are the ones it was given.
\<close>

theorem complete_group_is_skipped:
  assumes "isQuestionComplete radios"
  shows "solveOneQuestion isTop sent pages radios =
           \<lparr>verdict = AlreadyComplete, options = radios, trace = []\<rparr>"
  using assms by (simp add: solveOneQuestion_def)

theorem complete_group_is_skipped_witness:
  "isQuestionComplete answeredGroup \<and>
   solveOneQuestion True (Replied (Res None (Num 1) (Some ''B''))) (\<lambda>j. finishPage) answeredGroup =
     \<lparr>verdict = AlreadyComplete, options = answeredGroup, trace = []\<rparr>"
  using complete_group_is_skipped[OF answeredGroup_complete] answeredGroup_complete by simp

text \<open>
  Claim C9. For a non-empty group of \<open>n\<close> options and any \<open>index\<close> field of the AI
  result, the choice used lies in \<open>0 .. n - 1\<close>: an absent, \<open>NaN\<close> or negative index
  gives 0, an index of \<open>n\<close> or more gives \<open>n - 1\<close>, an index in range is kept. Every
  option that a run selects is one that \<open>radios[i]\<close> finds. In a group that is not
  complete the choice is one that \<open>radios[i]\<close> finds, and it is the first option
  selected: the run selects at least one option, this one first, whenever the labels
  could be read; when reading them raises, the run selects nothing.
\<close>

theorem ai_choice_is_clamped:
  assumes "radios \<noteq> []"
  shows "0 \<le> aiChoice (length radios) i \<and> aiChoice (length radios) i < int (length radios)
    \<and> (i = Undefined \<or> i = NaN \<or> (\<exists>v<0. i = Num v) \<longrightarrow> aiChoice (length radios) i = 0)
    \<and> (\<forall>v. i = Num v \<and> int (length radios) \<le> v \<longrightarrow> aiChoice (length radios) i = int (length radios) - 1)
    \<and> (\<forall>v. i = Num v \<and> 0 \<le> v \<and> v < int (length radios) \<longrightarrow> aiChoice (length radios) i = v)
    \<and> (\<forall>s \<in> set (selections (trace (solveOneQuestion isTop (Replied reply) pages radios))).
          at_index radios s \<noteq> None)
    \<and> (\<not> isQuestionComplete radios \<longrightarrow>
         at_index radios (aiChoice (length radios) (index (askAI reply))) \<noteq> None
         \<and> (\<forall>labels. getLabels radios = Inr labels \<longrightarrow>
               selections (trace (solveOneQuestion isTop (Replied reply) pages radios)) \<noteq> []
               \<and> hd (selections (trace (solveOneQuestion isTop (Replied reply) pages radios)))
                   = aiChoice (length radios) (index (askAI reply)))
         \<and> (\<forall>e. getLabels radios = Inl e \<longrightarrow>
               selections (trace (solveOneQuestion isTop (Replied reply) pages radios)) = []))"
proof -
  from assms have n: "0 < length radios" by simp
  have bounds: "\<And>x. 0 \<le> aiChoice (length radios) x \<and> aiChoice (length radios) x < int (length radios)"
    using aiChoice_bounds[OF n] .
  have low: "i = Undefined \<or> i = NaN \<or> (\<exists>v<0. i = Num v) \<longrightarrow> aiChoice (length radios) i = 0"
    using n by (auto simp: aiChoice_def orZero_def)
  have high: "\<forall>v. i = Num v \<and> int (length radios) \<le> v \<longrightarrow> aiChoice (length radios) i = int (length radios) - 1"
    using n by (auto simp: aiChoice_def orZero_def)
  have mid: "\<forall>v. i = Num v \<and> 0 \<le> v \<and> v < int (length radios) \<longrightarrow> aiChoice (length radios) i = v"
    by (auto simp: aiChoice_def orZero_def)
  have within: "\<forall>s \<in> set (selections (trace (solveOneQuestion isTop (Replied reply) pages radios))).
          at_index radios s \<noteq> None"
  proof
    fix s assume s: "s \<in> set (selections (trace (solveOneQuestion isTop (Replied reply) pages radios)))"
    from selections_prefix[of reply radios isTop pages] obtain m where
      "selections (trace (solveOneQuestion isTop (Replied reply) pages radios)) = take m (orderOf reply radios)"
      by blast
    with s have "s \<in> set (orderOf reply radios)" by (auto dest: in_set_takeD)
    moreover have "set (orderOf reply radios) = {i. 0 \<le> i \<and> i < int (length radios)}"
      unfolding orderOf_def using trialOrder_props(2) bounds by blast
    ultimately show "at_index radios s \<noteq> None" by (simp add: at_index_def)
  qed
  have first: "\<not> isQuestionComplete radios \<longrightarrow>
         at_index radios (aiChoice (length radios) (index (askAI reply))) \<noteq> None
         \<and> (\<forall>labels. getLabels radios = Inr labels \<longrightarrow>
               selections (trace (solveOneQuestion isTop (Replied reply) pages radios)) \<noteq> []
               \<and> hd (selections (trace (solveOneQuestion isTop (Replied reply) pages radios)))
                   = aiChoice (length radios) (index (askAI reply)))
         \<and> (\<forall>e. getLabels radios = Inl e \<longrightarrow>
               selections (trace (solveOneQuestion isTop (Replied reply) pages radios)) = [])"
  proof
    assume inc: "\<not> isQuestionComplete radios"
    have a: "at_index radios (aiChoice (length radios) (index (askAI reply))) \<noteq> None"
      using bounds by (simp add: at_index_def)
    have b: "selections (trace (solveOneQuestion isTop (Replied reply) pages radios)) \<noteq> []
               \<and> hd (selections (trace (solveOneQuestion isTop (Replied reply) pages radios)))
                   = aiChoice (length radios) (index (askAI reply))"
      if "getLabels radios = Inr labels" for labels
      unfolding solveOneQuestion_asked[OF inc that] orderOf_def trialOrder_def
      using tryOrder_first by (simp add: after_simps selections_trial del: tryOrder.simps)
    have c: "selections (trace (solveOneQuestion isTop (Replied reply) pages radios)) = []"
      if "getLabels radios = Inl e" for e
      unfolding solveOneQuestion_unread[OF inc that] by (simp add: selections_trial)
    from a b c show "at_index radios (aiChoice (length radios) (index (askAI reply))) \<noteq> None
         \<and> (\<forall>labels. getLabels radios = Inr labels \<longrightarrow>
               selections (trace (solveOneQuestion isTop (Replied reply) pages radios)) \<noteq> []
               \<and> hd (selections (trace (solveOneQuestion isTop (Replied reply) pages radios)))
                   = aiChoice (length radios) (index (askAI reply)))
         \<and> (\<forall>e. getLabels radios = Inl e \<longrightarrow>
               selections (trace (solveOneQuestion isTop (Replied reply) pages radios)) = [])"
      by blast
  qed
  from bounds[of i] low high mid within first show ?thesis by blast
qed

theorem ai_choice_is_clamped_witness:
  "exampleGroup \<noteq> [] \<and> \<not> isQuestionComplete exampleGroup
   \<and> aiChoice (length exampleGroup) (Num 7) = 3
   \<and> hd (selections (trace (solveOneQuestion True (Replied (Res None (Num 7) (Some ''H''))) (\<lambda>j. finishPage) exampleGroup))) = 3
   \<and> at_index exampleGroup 3 \<noteq> None"
proof -
  have ne: "exampleGroup \<noteq> []" by (simp add: exampleGroup_def)
  have k: "aiChoice (length exampleGroup) (index (askAI (Res None (Num 7) (Some ''H'')))) = 3"
    by (simp add: length_exampleGroup aiChoice_def orZero_def askAI_def truthy_def)
  have k': "aiChoice (length exampleGroup) (Num 7) = 3"
    by (simp add: length_exampleGroup aiChoice_def orZero_def)
  from ai_choice_is_clamped[OF ne, of "Num 7" True "Res None (Num 7) (Some ''H'')" "\<lambda>j. finishPage"]
  have "\<not> isQuestionComplete exampleGroup \<longrightarrow>
         at_index exampleGroup (aiChoice (length exampleGroup) (index (askAI (Res None (Num 7) (Some ''H''))))) \<noteq> None
         \<and> (\<forall>labels. getLabels exampleGroup = Inr labels \<longrightarrow>
               selections (trace (solveOneQuestion True (Replied (Res None (Num 7) (Some ''H''))) (\<lambda>j. finishPage) exampleGroup)) \<noteq> []
               \<and> hd (selections (trace (solveOneQuestion True (Replied (Res None (Num 7) (Some ''H''))) (\<lambda>j. finishPage) exampleGroup)))
                   = aiChoice (length exampleGroup) (index (askAI (Res None (Num 7) (Some ''H'')))))
         \<and> (\<forall>e. getLabels exampleGroup = Inl e \<longrightarrow>
               selections (trace (solveOneQuestion True (Replied (Res None (Num 7) (Some ''H''))) (\<lambda>j. finishPage) exampleGroup)) = [])"
    by blast
  with exampleGroup_incomplete exampleGroup_labels
  have "at_index exampleGroup (aiChoice (length exampleGroup) (index (askAI (Res None (Num 7) (Some ''H''))))) \<noteq> None"
    and "hd (selections (trace (solveOneQuestion True (Replied (Res None (Num 7) (Some ''H''))) (\<lambda>j. finishPage) exampleGroup)))
                   = aiChoice (length exampleGroup) (index (askAI (Res None (Num 7) (Some ''H''))))"
    by blast+
  with k k' ne exampleGroup_incomplete show ?thesis by simp
qed

text \<open>
  Claim C1, as amended. In a group of \<open>n\<close> options that is not complete, the trial
  order built by \<open>solveOneQuestion\<close> starts with the clamped choice, which is the
  AI-suggested index itself whenever that lies in \<open>0 .. n - 1\<close>; it continues with
  the remaining indices in ascending order, has no duplicates, contains exactly the
  indices \<open>0 .. n - 1\<close>, and has length \<open>n\<close>; the options the run selects are an
  initial part of it.
\<close>

theorem trial_order_of_solveOneQuestion:
  assumes "\<not> isQuestionComplete radios"
  shows "hd (trialOrder (length radios) (aiChoice (length radios) (index (askAI reply))))
           = aiChoice (length radios) (index (askAI reply))
    \<and> tl (trialOrder (length radios) (aiChoice (length radios) (index (askAI reply))))
           = filter (\<lambda>i. i \<noteq> aiChoice (length radios) (index (askAI reply))) (map int [0..<length radios])
    \<and> sorted (tl (trialOrder (length radios) (aiChoice (length radios) (index (askAI reply)))))
    \<and> distinct (trialOrder (length radios) (aiChoice (length radios) (index (askAI reply))))
    \<and> set (trialOrder (length radios) (aiChoice (length radios) (index (askAI reply))))
           = {i. 0 \<le> i \<and> i < int (length radios)}
    \<and> length (trialOrder (length radios) (aiChoice (length radios) (index (askAI reply))))
           = length radios
    \<and> (\<forall>v. index (askAI reply) = Num v \<and> 0 \<le> v \<and> v < int (length radios)
           \<longrightarrow> aiChoice (length radios) (index (askAI reply)) = v)
    \<and> (\<exists>m\<le>length radios. selections (trace (solveOneQuestion isTop (Replied reply) pages radios))
           = take m (trialOrder (length radios) (aiChoice (length radios) (index (askAI reply)))))"
proof -
  define n where "n = length radios"
  define k where "k = aiChoice n (index (askAI reply))"
  from assms have ne: "radios \<noteq> []" using incomplete_nonempty by auto
  then have "0 < n" unfolding n_def by simp
  then have kb: "0 \<le> k" "k < int n" unfolding k_def using aiChoice_bounds by auto
  note props = trialOrder_props[OF kb]
  have shape: "hd (trialOrder n k) = k" "tl (trialOrder n k) = filter (\<lambda>i. i \<noteq> k) (map int [0..<n])"
    by (simp_all add: trialOrder_def)
  have inrange: "\<forall>v. index (askAI reply) = Num v \<and> 0 \<le> v \<and> v < int n \<longrightarrow> k = v"
    by (auto simp: k_def aiChoice_def orZero_def)
  have order: "orderOf reply radios = trialOrder n k"
    by (simp add: orderOf_def n_def k_def)
  from selections_prefix[of reply radios isTop pages] props(3)
  have run: "\<exists>m\<le>n. selections (trace (solveOneQuestion isTop (Replied reply) pages radios))
           = take m (trialOrder n k)"
    unfolding order by simp
  from shape props inrange run show ?thesis unfolding n_def k_def by blast
qed

theorem trial_order_of_solveOneQuestion_witness:
  "\<not> isQuestionComplete exampleGroup
   \<and> trialOrder (length exampleGroup) (aiChoice (length exampleGroup) (index (askAI (Res None (Num 2) (Some ''C'')))))
       = [2, 0, 1, 3]
   \<and> length (trialOrder (length exampleGroup) (aiChoice (length exampleGroup) (index (askAI (Res None (Num 2) (Some ''C''))))))
       = length exampleGroup
   \<and> distinct (trialOrder (length exampleGroup) (aiChoice (length exampleGroup) (index (askAI (Res None (Num 2) (Some ''C''))))))"
proof -
  have k: "aiChoice (length exampleGroup) (index (askAI (Res None (Num 2) (Some ''C'')))) = 2"
    by (simp add: length_exampleGroup aiChoice_def orZero_def askAI_def truthy_def)
  have order: "trialOrder (length exampleGroup) 2 = [2, 0, 1, 3]"
    unfolding length_exampleGroup by code_simp
  have e: "trialOrder (length exampleGroup) (aiChoice (length exampleGroup) (index (askAI (Res None (Num 2) (Some ''C'')))))
       = [2, 0, 1, 3]"
    by (simp only: k order)
  from trial_order_of_solveOneQuestion[OF exampleGroup_incomplete, of "Res None (Num 2) (Some ''C'')" True "\<lambda>j. finishPage"]
  have "length (trialOrder (length exampleGroup) (aiChoice (length exampleGroup) (index (askAI (Res None (Num 2) (Some ''C''))))))
       = length exampleGroup"
    and "distinct (trialOrder (length exampleGroup) (aiChoice (length exampleGroup) (index (askAI (Res None (Num 2) (Some ''C''))))))"
    by blast+
  with exampleGroup_incomplete e show ?thesis by blast
qed

text \<open>
  Claim C1 as stated fails for a suggestion outside the group: with four options and
  the suggested index 5, the order starts with 3, the clamped choice, not with 5.
\<close>

theorem out_of_range_suggestion_is_clamped:
  "\<not> isQuestionComplete exampleGroup
   \<and> length exampleGroup = 4
   \<and> index (askAI (Res None (Num 5) (Some ''F''))) = Num 5
   \<and> trialOrder (length exampleGroup) (aiChoice (length exampleGroup) (index (askAI (Res None (Num 5) (Some ''F'')))))
       = [3, 0, 1, 2]
   \<and> selections (trace (solveOneQuestion True (Replied (Res None (Num 5) (Some ''F''))) alwaysTryAgain exampleGroup))
       = [3, 0, 1, 2]"
  by code_simp

text \<open>
  Claim C3. A run ends solved only through a trial that reports \<open>"correct"\<close>: it is
  then solved with the option of the first such trial, every earlier trial went on to
  the next option, and the options selected are those of the trial order up to that
  trial and no further one. A run that ends exhausted has seen no \<open>"correct"\<close> and
  has selected the whole order. Conversely, once the labels are read and the AI has
  replied: a trial that reports \<open>"correct"\<close> after trials that all went on ends the
  run solved there; a selection or a modal check that raises after trials that all
  went on ends the run rejected there; trials that all go on end it exhausted; so
  when no trial raises, the run ends solved exactly when some trial reports
  \<open>"correct"\<close>. Replacing every \<open>"unknown"\<close> report by \<open>"wrong"\<close> leaves the run
  unchanged.
\<close>

theorem success_only_on_correct:
  "(\<forall>i. verdict (solveOneQuestion isTop (Replied reply) pages radios) = Solved i \<longrightarrow>
       (\<exists>j<length radios.
           orderOf reply radios ! j = i
           \<and> reportAt isTop reply pages radios j = Reported Correct
           \<and> (\<forall>q<j. goesOn (reportAt isTop reply pages radios q))
           \<and> selections (trace (solveOneQuestion isTop (Replied reply) pages radios))
               = take (Suc j) (orderOf reply radios)))
   \<and> (verdict (solveOneQuestion isTop (Replied reply) pages radios) = Exhausted \<longrightarrow>
         (\<forall>j<length radios. goesOn (reportAt isTop reply pages radios j))
         \<and> selections (trace (solveOneQuestion isTop (Replied reply) pages radios)) = orderOf reply radios)
   \<and> (\<not> isQuestionComplete radios \<and> (\<exists>labels. getLabels radios = Inr labels) \<longrightarrow>
         (\<forall>j<length radios.
             reportAt isTop reply pages radios j = Reported Correct
             \<and> (\<forall>q<j. goesOn (reportAt isTop reply pages radios q))
             \<longrightarrow> verdict (solveOneQuestion isTop (Replied reply) pages radios)
                   = Solved (orderOf reply radios ! j)
                 \<and> selections (trace (solveOneQuestion isTop (Replied reply) pages radios))
                   = take (Suc j) (orderOf reply radios))
         \<and> (\<forall>j<length radios.
             (reportAt isTop reply pages radios j = SelectRaised
              \<or> reportAt isTop reply pages radios j = ModalRaised)
             \<and> (\<forall>q<j. goesOn (reportAt isTop reply pages radios q))
             \<longrightarrow> verdict (solveOneQuestion isTop (Replied reply) pages radios) = Rejected Raised
                 \<and> selections (trace (solveOneQuestion isTop (Replied reply) pages radios))
                   = take (Suc j) (orderOf reply radios))
         \<and> ((\<forall>j<length radios. goesOn (reportAt isTop reply pages radios j))
             \<longrightarrow> verdict (solveOneQuestion isTop (Replied reply) pages radios) = Exhausted
                 \<and> selections (trace (solveOneQuestion isTop (Replied reply) pages radios))
                   = orderOf reply radios)
         \<and> ((\<forall>j<length radios. reportAt isTop reply pages radios j \<noteq> SelectRaised
                                  \<and> reportAt isTop reply pages radios j \<noteq> ModalRaised)
             \<longrightarrow> ((\<exists>i. verdict (solveOneQuestion isTop (Replied reply) pages radios) = Solved i)
                    \<longleftrightarrow> (\<exists>j<length radios. reportAt isTop reply pages radios j = Reported Correct))))
   \<and> (\<forall>pages'. (\<forall>j<length radios. reportAt isTop reply pages' radios j
                                      = unknownAsWrong (reportAt isTop reply pages radios j))
         \<longrightarrow> solveOneQuestion isTop (Replied reply) pages' radios
               = solveOneQuestion isTop (Replied reply) pages radios)"
proof -
  define order where "order = orderOf reply radios"
  define R where "R = solveOneQuestion isTop (Replied reply) pages radios"
  define rep where "rep = reportAt isTop reply pages radios"
  have rep: "rep j = trialReport isTop (pages (0 + j)) radios (order ! j)" for j
    by (simp add: rep_def reportAt_def order_def)
  have asked: "R = after [AskAI] (tryOrder isTop pages 0 radios order)
               \<and> length order = length radios"
    if "\<not> isQuestionComplete radios" "getLabels radios = Inr labels" for labels
    unfolding R_def order_def
    using solveOneQuestion_asked[OF that] length_orderOf[OF incomplete_nonempty[OF that(1)]]
    by simp
  have reached: "\<not> isQuestionComplete radios \<and> (\<exists>labels. getLabels radios = Inr labels)"
    if "verdict R = Solved i \<or> verdict R = Exhausted" for i
  proof -
    have "\<not> isQuestionComplete radios"
      using that by (auto simp: R_def solveOneQuestion_def)
    moreover have "\<exists>labels. getLabels radios = Inr labels"
    proof (cases "getLabels radios")
      case (Inl e)
      with that \<open>\<not> isQuestionComplete radios\<close> show ?thesis
        by (auto simp: R_def solveOneQuestion_def)
    next
      case (Inr labels)
      then show ?thesis by blast
    qed
    ultimately show ?thesis by blast
  qed
  have solved: "\<exists>j<length radios. order ! j = i \<and> rep j = Reported Correct
                  \<and> (\<forall>q<j. goesOn (rep q)) \<and> selections (trace R) = take (Suc j) order"
    if v: "verdict R = Solved i" for i
  proof -
    from reached[of i] v obtain labels where
      l: "\<not> isQuestionComplete radios" "getLabels radios = Inr labels" by blast
    note a = asked[OF l]
    from v a have "verdict (tryOrder isTop pages 0 radios order) = Solved i"
      by (simp add: after_simps)
    from tryOrder_solved[OF refl this] a
    show ?thesis
      unfolding rep by (simp add: after_simps selections_trial)
  qed
  have exhausted: "(\<forall>j<length radios. goesOn (rep j)) \<and> selections (trace R) = order"
    if v: "verdict R = Exhausted"
  proof -
    from reached[of 0] v obtain labels where
      l: "\<not> isQuestionComplete radios" "getLabels radios = Inr labels" by blast
    note a = asked[OF l]
    from v a have "verdict (tryOrder isTop pages 0 radios order) = Exhausted"
      by (simp add: after_simps)
    from tryOrder_exhausted[OF refl this] a
    show ?thesis
      unfolding rep by (simp add: after_simps selections_trial)
  qed
  have stops: "verdict R = Solved (order ! j) \<and> selections (trace R) = take (Suc j) order"
    if l: "\<not> isQuestionComplete radios" "getLabels radios = Inr labels"
      and j: "j < length radios" "rep j = Reported Correct" "\<forall>q<j. goesOn (rep q)"
    for labels j
  proof -
    note a = asked[OF l]
    from j a have "j < length order"
      "trialReport isTop (pages (0 + j)) radios (order ! j) = Reported Correct"
      "\<forall>q<j. goesOn (trialReport isTop (pages (0 + q)) radios (order ! q))"
      by (simp_all add: rep)
    from tryOrder_stops[OF refl this] a
    show ?thesis by (simp add: after_simps selections_trial)
  qed
  have raised: "verdict R = Rejected Raised \<and> selections (trace R) = take (Suc j) order"
    if l: "\<not> isQuestionComplete radios" "getLabels radios = Inr labels"
      and j: "j < length radios" "rep j = SelectRaised \<or> rep j = ModalRaised" "\<forall>q<j. goesOn (rep q)"
    for labels j
  proof -
    note a = asked[OF l]
    from j a have "j < length order"
      "trialReport isTop (pages (0 + j)) radios (order ! j) = SelectRaised
       \<or> trialReport isTop (pages (0 + j)) radios (order ! j) = ModalRaised"
      "\<forall>q<j. goesOn (trialReport isTop (pages (0 + q)) radios (order ! q))"
      by (simp_all add: rep)
    from tryOrder_raised[OF refl this] a
    show ?thesis by (simp add: after_simps selections_trial)
  qed
  have passes: "verdict R = Exhausted \<and> selections (trace R) = order"
    if l: "\<not> isQuestionComplete radios" "getLabels radios = Inr labels"
      and all: "\<forall>j<length radios. goesOn (rep j)"
    for labels
  proof -
    note a = asked[OF l]
    from all a have "\<forall>q<length order. goesOn (trialReport isTop (pages (0 + q)) radios (order ! q))"
      by (simp add: rep)
    from tryOrder_passes[OF refl this] a
    show ?thesis by (simp add: after_simps selections_trial)
  qed
  have iff: "(\<exists>i. verdict R = Solved i) \<longleftrightarrow> (\<exists>j<length radios. rep j = Reported Correct)"
    if l: "\<not> isQuestionComplete radios" "getLabels radios = Inr labels"
      and noraise: "\<forall>j<length radios. rep j \<noteq> SelectRaised \<and> rep j \<noteq> ModalRaised"
    for labels
  proof
    assume "\<exists>i. verdict R = Solved i"
    with solved show "\<exists>j<length radios. rep j = Reported Correct" by blast
  next
    assume "\<exists>j<length radios. rep j = Reported Correct"
    from first_correct[OF this] obtain j where
      j: "j < length radios" "rep j = Reported Correct" "\<forall>q<j. rep q \<noteq> Reported Correct"
      by blast
    have "\<forall>q<j. goesOn (rep q)"
    proof (intro allI impI)
      fix q assume "q < j"
      with j(1) j(3) noraise show "goesOn (rep q)" by (simp add: goesOn_iff)
    qed
    from stops[OF l j(1) j(2) this] show "\<exists>i. verdict R = Solved i" by blast
  qed
  have same: "solveOneQuestion isTop (Replied reply) pages' radios = R"
    if u: "\<forall>j<length radios. reportAt isTop reply pages' radios j = unknownAsWrong (rep j)"
    for pages'
  proof (cases "\<not> isQuestionComplete radios \<and> (\<exists>labels. getLabels radios = Inr labels)")
    case True
    then obtain labels where l: "\<not> isQuestionComplete radios" "getLabels radios = Inr labels"
      by blast
    note a = asked[OF l]
    from u a have "\<forall>q<length order. trialReport isTop (pages' (0 + q)) radios (order ! q)
            = unknownAsWrong (trialReport isTop (pages (0 + q)) radios (order ! q))"
      by (simp add: rep reportAt_def order_def)
    from tryOrder_unknown_as_wrong[OF refl this]
    show ?thesis
      unfolding R_def solveOneQuestion_asked[OF l] order_def by simp
  next
    case False
    then show ?thesis
      unfolding R_def by (auto simp: solveOneQuestion_def split: sum.splits)
  qed
  from solved exhausted stops raised passes iff same
  show ?thesis
    unfolding R_def order_def rep_def by blast
qed

theorem success_only_on_correct_witness:
  "\<not> isQuestionComplete exampleGroup
   \<and> getLabels exampleGroup
       = Inr [''The mitochondrion'', ''The mitochondrion'', ''The mitochondrion'', ''The mitochondrion'']
   \<and> reportAt True (Res None (Num 0) (Some ''A'')) thirdTimeLucky exampleGroup 0 = Reported Wrong
   \<and> reportAt True (Res None (Num 0) (Some ''A'')) thirdTimeLucky exampleGroup 1 = Reported Unknown
   \<and> reportAt True (Res None (Num 0) (Some ''A'')) thirdTimeLucky exampleGroup 2 = Reported Correct
   \<and> verdict (solveOneQuestion True (Replied (Res None (Num 0) (Some ''A''))) thirdTimeLucky exampleGroup) = Solved 2
   \<and> selections (trace (solveOneQuestion True (Replied (Res None (Num 0) (Some ''A''))) thirdTimeLucky exampleGroup)) = [0, 1, 2]
   \<and> \<not> isQuestionComplete quotedGroup
   \<and> getLabels quotedGroup = Inr [''The mitochondrion'', ''The mitochondrion'']
   \<and> reportAt True (Res None (Num 0) (Some ''A'')) alwaysFinish quotedGroup 0 = SelectRaised
   \<and> verdict (solveOneQuestion True (Replied (Res None (Num 0) (Some ''A''))) alwaysFinish quotedGroup) = Rejected Raised
   \<and> selections (trace (solveOneQuestion True (Replied (Res None (Num 0) (Some ''A''))) alwaysFinish quotedGroup)) = [0]"
proof -
  have order: "orderOf (Res None (Num 0) (Some ''A'')) exampleGroup = [0, 1, 2, 3]"
    by code_simp
  have reps: "reportAt True (Res None (Num 0) (Some ''A'')) thirdTimeLucky exampleGroup 0 = Reported Wrong"
    "reportAt True (Res None (Num 0) (Some ''A'')) thirdTimeLucky exampleGroup 1 = Reported Unknown"
    "reportAt True (Res None (Num 0) (Some ''A'')) thirdTimeLucky exampleGroup 2 = Reported Correct"
    by (simp_all only: reportAt_def thirdTimeLucky_reports)
  have early: "\<forall>q<2. goesOn (reportAt True (Res None (Num 0) (Some ''A'')) thirdTimeLucky exampleGroup q)"
  proof (intro allI impI)
    fix q :: nat assume "q < 2"
    then have "q = 0 \<or> q = 1" by auto
    then show "goesOn (reportAt True (Res None (Num 0) (Some ''A'')) thirdTimeLucky exampleGroup q)"
      using reps by (auto simp: goesOn_def)
  qed
  have two: "2 < length exampleGroup" by (simp add: length_exampleGroup)
  have l: "\<not> isQuestionComplete exampleGroup \<and> (\<exists>labels. getLabels exampleGroup = Inr labels)"
    using exampleGroup_incomplete exampleGroup_labels by blast
  from success_only_on_correct[of True "Res None (Num 0) (Some ''A'')" thirdTimeLucky exampleGroup] l
  have stops: "\<forall>j<length exampleGroup.
             reportAt True (Res None (Num 0) (Some ''A'')) thirdTimeLucky exampleGroup j = Reported Correct
             \<and> (\<forall>q<j. goesOn (reportAt True (Res None (Num 0) (Some ''A'')) thirdTimeLucky exampleGroup q))
             \<longrightarrow> verdict (solveOneQuestion True (Replied (Res None (Num 0) (Some ''A''))) thirdTimeLucky exampleGroup)
                   = Solved (orderOf (Res None (Num 0) (Some ''A'')) exampleGroup ! j)
                 \<and> selections (trace (solveOneQuestion True (Replied (Res None (Num 0) (Some ''A''))) thirdTimeLucky exampleGroup))
                   = take (Suc j) (orderOf (Res None (Num 0) (Some ''A'')) exampleGroup)"
    by blast
  from stops[rule_format, OF two conjI[OF reps(3) early]]
  have "verdict (solveOneQuestion True (Replied (Res None (Num 0) (Some ''A''))) thirdTimeLucky exampleGroup)
                = Solved ([0, 1, 2, 3] ! 2)"
    and "selections (trace (solveOneQuestion True (Replied (Res None (Num 0) (Some ''A''))) thirdTimeLucky exampleGroup))
                = take (Suc 2) [0, 1, 2, 3]"
    unfolding order by blast+
  then have lucky: "verdict (solveOneQuestion True (Replied (Res None (Num 0) (Some ''A''))) thirdTimeLucky exampleGroup) = Solved 2"
    "selections (trace (solveOneQuestion True (Replied (Res None (Num 0) (Some ''A''))) thirdTimeLucky exampleGroup)) = [0, 1, 2]"
    by simp_all
  have qinc: "\<not> isQuestionComplete quotedGroup" by code_simp
  have qlabels: "getLabels quotedGroup = Inr [''The mitochondrion'', ''The mitochondrion'']" by code_simp
  have qorder: "orderOf (Res None (Num 0) (Some ''A'')) quotedGroup = [0, 1]" by code_simp
  have qrep: "reportAt True (Res None (Num 0) (Some ''A'')) alwaysFinish quotedGroup 0 = SelectRaised"
    by code_simp
  have qlen: "0 < length quotedGroup" by (simp add: quotedGroup_def)
  have ql: "\<not> isQuestionComplete quotedGroup \<and> (\<exists>labels. getLabels quotedGroup = Inr labels)"
    using qinc qlabels by blast
  from success_only_on_correct[of True "Res None (Num 0) (Some ''A'')" alwaysFinish quotedGroup] ql
  have raises: "\<forall>j<length quotedGroup.
             (reportAt True (Res None (Num 0) (Some ''A'')) alwaysFinish quotedGroup j = SelectRaised
              \<or> reportAt True (Res None (Num 0) (Some ''A'')) alwaysFinish quotedGroup j = ModalRaised)
             \<and> (\<forall>q<j. goesOn (reportAt True (Res None (Num 0) (Some ''A'')) alwaysFinish quotedGroup q))
             \<longrightarrow> verdict (solveOneQuestion True (Replied (Res None (Num 0) (Some ''A''))) alwaysFinish quotedGroup) = Rejected Raised
                 \<and> selections (trace (solveOneQuestion True (Replied (Res None (Num 0) (Some ''A''))) alwaysFinish quotedGroup))
                   = take (Suc j) (orderOf (Res None (Num 0) (Some ''A'')) quotedGroup)"
    by blast
  have none: "\<forall>q<(0::nat). goesOn (reportAt True (Res None (Num 0) (Some ''A'')) alwaysFinish quotedGroup q)"
    by simp
  from raises[rule_format, OF qlen conjI[OF disjI1[OF qrep] none]]
  have quoted: "verdict (solveOneQuestion True (Replied (Res None (Num 0) (Some ''A''))) alwaysFinish quotedGroup) = Rejected Raised"
    "selections (trace (solveOneQuestion True (Replied (Res None (Num 0) (Some ''A''))) alwaysFinish quotedGroup)) = [0]"
    unfolding qorder by simp_all
  from exampleGroup_incomplete exampleGroup_labels reps lucky qinc qlabels qrep quoted
  show ?thesis by blast
qed



text \<open>
  Claim C6. The buttons of a document are those of its tree and of the shadow trees
  hosted in it, at any depth. In any document, when some visible button among them
  carries "try again" or "retry", \<open>tryDismissLocal\<close> clicks such a button and
  returns \<open>"wrong"\<close>, whatever finish buttons there are; when no such button is
  visible and some visible button carries "finish", "ok", "done", "continue" or
  "got it", it clicks such a button and returns \<open>"correct"\<close>.
\<close>

theorem try_again_outranks_finish:
  "((\<exists>b. visibleMatch doc [''try again'', ''retry''] b)
      \<longrightarrow> (\<exists>b. visibleMatch doc [''try again'', ''retry''] b
               \<and> tryDismissLocal doc = Inr (Some Wrong, Some b)))
   \<and> ((\<forall>b. \<not> visibleMatch doc [''try again'', ''retry''] b)
       \<and> (\<exists>b. visibleMatch doc [''finish'', ''ok'', ''done'', ''continue'', ''got it''] b)
      \<longrightarrow> (\<exists>b. visibleMatch doc [''finish'', ''ok'', ''done'', ''continue'', ''got it''] b
               \<and> tryDismissLocal doc = Inr (Some Correct, Some b)))"
proof (intro conjI impI)
  assume "\<exists>b. visibleMatch doc [''try again'', ''retry''] b"
  then have "visibleButton doc [''try again'', ''retry''] \<noteq> None"
    using visibleButton_None by blast
  then obtain b where b: "visibleButton doc [''try again'', ''retry''] = Some b" by blast
  then have "tryDismissLocal doc = Inr (Some Wrong, Some b)"
    by (simp add: tryDismissLocal_def del: visibleButton.simps)
  with visibleButton_Some[OF b]
  show "\<exists>b. visibleMatch doc [''try again'', ''retry''] b
               \<and> tryDismissLocal doc = Inr (Some Wrong, Some b)" by blast
next
  assume a: "(\<forall>b. \<not> visibleMatch doc [''try again'', ''retry''] b)
       \<and> (\<exists>b. visibleMatch doc [''finish'', ''ok'', ''done'', ''continue'', ''got it''] b)"
  then have none: "visibleButton doc [''try again'', ''retry''] = None"
    using visibleButton_None by blast
  from a have "visibleButton doc [''finish'', ''ok'', ''done'', ''continue'', ''got it''] \<noteq> None"
    using visibleButton_None by blast
  then obtain b where b: "visibleButton doc [''finish'', ''ok'', ''done'', ''continue'', ''got it''] = Some b"
    by blast
  with none have "tryDismissLocal doc = Inr (Some Correct, Some b)"
    by (simp add: tryDismissLocal_def del: visibleButton.simps)
  with visibleButton_Some[OF b]
  show "\<exists>b. visibleMatch doc [''finish'', ''ok'', ''done'', ''continue'', ''got it''] b
               \<and> tryDismissLocal doc = Inr (Some Correct, Some b)" by blast
qed

theorem try_again_outranks_finish_witness:
  "visibleMatch shadowedTryAgainDoc [''try again'', ''retry''] (button ''Try Again'' 90 30)
   \<and> visibleMatch shadowedTryAgainDoc [''finish'', ''ok'', ''done'', ''continue'', ''got it''] (button ''Finish'' 90 30)
   \<and> map_sum id fst (tryDismissLocal shadowedTryAgainDoc) = Inr (Some Wrong)
   \<and> visibleMatch hiddenFinishDoc [''try again'', ''retry''] (button ''Try Again'' 90 30)
   \<and> \<not> isVisible (button ''Finish'' 0 0)
   \<and> map_sum id fst (tryDismissLocal hiddenFinishDoc) = Inr (Some Wrong)
   \<and> visibleMatch hiddenTryAgainDoc [''finish'', ''ok'', ''done'', ''continue'', ''got it''] (button ''Finish'' 90 30)
   \<and> map_sum id fst (tryDismissLocal hiddenTryAgainDoc) = Inr (Some Correct)"
proof -
  have tests: "isButton (button ''Try Again'' 90 30)" "isVisible (button ''Try Again'' 90 30)"
    "list_ex (hasText (button ''Try Again'' 90 30)) [''try again'', ''retry'']"
    "isButton (button ''Finish'' 90 30)" "isVisible (button ''Finish'' 90 30)"
    "list_ex (hasText (button ''Finish'' 90 30)) [''finish'', ''ok'', ''done'', ''continue'', ''got it'']"
    by code_simp+
  have s: "visibleMatch shadowedTryAgainDoc [''try again'', ''retry''] (button ''Try Again'' 90 30)"
    unfolding visibleMatch_def using shadowed_button_inDocument tests by blast
  have "inDocument shadowedTryAgainDoc (button ''Finish'' 90 30)"
    unfolding button_def
    by (rule inDocument.child[where host = "Elem ''main'' [] [] (Px 800) (Px 600) [button ''Finish'' 90 30, outerHost] None"])
       (rule inDocument.top, simp_all add: shadowedTryAgainDoc_def button_def)
  then have f: "visibleMatch shadowedTryAgainDoc [''finish'', ''ok'', ''done'', ''continue'', ''got it''] (button ''Finish'' 90 30)"
    unfolding visibleMatch_def using tests by blast
  have a: "visibleMatch hiddenFinishDoc [''try again'', ''retry''] (button ''Try Again'' 90 30)"
    unfolding visibleMatch_def hiddenFinishDoc_def using top_button_inDocument(2) tests by blast
  have h: "\<not> isVisible (button ''Finish'' 0 0)"
    by code_simp
  have b: "visibleMatch hiddenTryAgainDoc [''finish'', ''ok'', ''done'', ''continue'', ''got it''] (button ''Finish'' 90 30)"
    unfolding visibleMatch_def hiddenTryAgainDoc_def using top_button_inDocument(2) tests by blast
  have "visibleButton hiddenTryAgainDoc [''try again'', ''retry''] = None"
    by code_simp
  then have c: "\<forall>b. \<not> visibleMatch hiddenTryAgainDoc [''try again'', ''retry''] b"
    using visibleButton_None by blast
  from try_again_outranks_finish[of shadowedTryAgainDoc] s
  have "\<exists>b. tryDismissLocal shadowedTryAgainDoc = Inr (Some Wrong, Some b)" by blast
  then have sw: "map_sum id fst (tryDismissLocal shadowedTryAgainDoc) = Inr (Some Wrong)" by auto
  from try_again_outranks_finish[of hiddenFinishDoc] a
  have "\<exists>b. tryDismissLocal hiddenFinishDoc = Inr (Some Wrong, Some b)" by blast
  then have w: "map_sum id fst (tryDismissLocal hiddenFinishDoc) = Inr (Some Wrong)" by auto
  from try_again_outranks_finish[of hiddenTryAgainDoc] b c
  have "\<exists>b. tryDismissLocal hiddenTryAgainDoc = Inr (Some Correct, Some b)" by blast
  then have r: "map_sum id fst (tryDismissLocal hiddenTryAgainDoc) = Inr (Some Correct)" by auto
  from s f sw a h w b r show ?thesis by blast
qed



text \<open>
  Claim C8, at the input where the code departs from it. A close control of the
  feedback class with a width of 24 and a height of 0 is not visible by the test of
  the keyword loops, yet \<open>tryDismissLocal\<close> clicks it and returns \<open>"correct"\<close>; and a
  close control whose width cannot be read makes \<open>tryDismissLocal\<close> raise, where the
  keyword loops would have counted it visible.
\<close>

theorem close_control_without_height:
  "tryDismissLocal [flatClose] = Inr (Some Correct, Some flatClose)
   \<and> offsetHeight flatClose = Px 0
   \<and> \<not> isVisible flatClose
   \<and> tryDismissLocal [brokenClose] = Inl Raised
   \<and> isVisible brokenClose"
  by code_simp

text \<open>
  Claim C5, as amended. \<open>isQuestionComplete\<close> inspects at most 20 nodes on the way
  up through parents and shadow hosts. The first inspected text that contains
  "Check Your Understanding" and also either "INCOMPLETE" or the whole word
  "COMPLETE" (all three without regard to case) decides: the answer is false when it
  contains "INCOMPLETE" and true otherwise. When no inspected text decides, the
  answer is true exactly when every option of the group is disabled.
\<close>

theorem completion_oracle:
  "isQuestionComplete radios =
     (case find decides (inspected 20 (firstOf radios)) of
        Some t \<Rightarrow> \<not> testIgnoreCase ''INCOMPLETE'' t
      | None \<Rightarrow> list_all disabled radios)
   \<and> length (inspected 20 (firstOf radios)) \<le> 20"
proof -
  have "(case radios of [] \<Rightarrow> None | r # _ \<Rightarrow> Some r) = firstOf radios"
    by (simp add: firstOf_def)
  then have "isQuestionComplete radios =
     (case find decides (inspected 20 (firstOf radios)) of
        Some t \<Rightarrow> \<not> testIgnoreCase ''INCOMPLETE'' t
      | None \<Rightarrow> list_all disabled radios)"
    unfolding isQuestionComplete_def walkUp_find
    by (simp split: option.splits)
  with length_inspected[of 20 "firstOf radios"] show ?thesis by blast
qed

theorem completion_oracle_witness:
  "isQuestionComplete [completedRadio] = False
   \<and> find decides (inspected 20 (firstOf [completedRadio])) = None
   \<and> isQuestionComplete answeredGroup = True"
proof -
  have a: "find decides (inspected 20 (firstOf [completedRadio])) = None" by code_simp
  have b: "list_all disabled [completedRadio] = False" by code_simp
  have c: "find decides (inspected 20 (firstOf answeredGroup)) = None" by code_simp
  have d: "list_all disabled answeredGroup = True" by code_simp
  from completion_oracle[of "[completedRadio]"] completion_oracle[of answeredGroup] a b c d
  show ?thesis by simp
qed

text \<open>
  Claim C5 as stated fails where "COMPLETE" occurs only inside a longer word: the
  block text "Check Your Understanding COMPLETED" contains the heading and
  "COMPLETE" and does not contain "INCOMPLETE", yet the group is reported not
  complete.
\<close>

theorem completed_is_not_complete:
  "str_includes (textContent (the (parentElement completedRadio))) ''Check Your Understanding''
   \<and> str_includes (textContent (the (parentElement completedRadio))) ''COMPLETE''
   \<and> \<not> str_includes (textContent (the (parentElement completedRadio))) ''INCOMPLETE''
   \<and> \<not> testIgnoreCase ''INCOMPLETE'' (textContent (the (parentElement completedRadio)))
   \<and> inspected 20 (firstOf [completedRadio]) = ['''', ''Check Your Understanding COMPLETED'']
   \<and> \<not> list_all disabled [completedRadio]
   \<and> \<not> isQuestionComplete [completedRadio]"
  by code_simp

text \<open>
  Claim C10, as amended. The index the worker derives from the response text is the
  position in A..F of the first character of the upper-cased text that lies in A..F,
  and 0 when there is none; it is always between 0 and 5. With a stored key and an
  OK response, the worker answers with this index whenever the text can be read from
  the body, and answers with an error when reading it raises, which happens exactly
  when the body is \<open>null\<close> or \<open>choices[0].message.content\<close> is present and is neither
  \<open>null\<close> nor a string.
\<close>

theorem answer_index_of_completion:
  "0 \<le> answerIndex rawText \<and> answerIndex rawText \<le> 5
   \<and> answerIndex rawText =
       (case filter inAF (toUpperCase rawText) of [] \<Rightarrow> 0 | c # _ \<Rightarrow> (of_char c :: int) - 65)
   \<and> (truthy key \<and> rawContent data = Inr rawText
        \<longrightarrow> onAskAI key (Http True st txt (Some data)) = Answer (answerIndex rawText) rawText)
   \<and> (truthy key \<and> rawContent data = Inl Raised
        \<longrightarrow> isError (onAskAI key (Http True st txt (Some data))))
   \<and> (rawContent data = Inl Raised \<longleftrightarrow>
        data = JNull
        \<or> (\<exists>choices choice message content.
              getProp data ''choices'' = Some choices \<and> choices \<noteq> JNull
              \<and> getFirst choices = Some choice \<and> choice \<noteq> JNull
              \<and> getProp choice ''message'' = Some message \<and> message \<noteq> JNull
              \<and> getProp message ''content'' = Some content \<and> content \<noteq> JNull
              \<and> (\<forall>s. content \<noteq> JStr s)))"
proof -
  have ok: "truthy key \<and> rawContent data = Inr rawText
        \<longrightarrow> onAskAI key (Http True st txt (Some data)) = Answer (answerIndex rawText) rawText"
    by (simp add: onAskAI_def)
  have bad: "truthy key \<and> rawContent data = Inl Raised
        \<longrightarrow> isError (onAskAI key (Http True st txt (Some data)))"
    by (simp add: onAskAI_def)
  from answerIndex_range[of rawText] answerIndex_eq[of rawText] ok bad rawContent_raises[of data]
  show ?thesis by blast
qed

theorem answer_index_of_completion_witness:
  "truthy (Some ''sk-test'')
   \<and> rawContent (textCompletion '' b. '') = Inr ''b.''
   \<and> onAskAI (Some ''sk-test'') (Http True ''200'' [] (Some (textCompletion '' b. ''))) = Answer 1 ''b.''
   \<and> rawContent partsCompletion = Inl Raised
   \<and> isError (onAskAI (Some ''sk-test'') (Http True ''200'' [] (Some partsCompletion)))"
proof -
  have key: "truthy (Some ''sk-test'')" by code_simp
  have content: "rawContent (textCompletion '' b. '') = Inr ''b.''" by code_simp
  have idx: "answerIndex ''b.'' = 1" by code_simp
  have parts: "rawContent partsCompletion = Inl Raised" by code_simp
  from answer_index_of_completion[of "''b.''" "Some ''sk-test''" "textCompletion '' b. ''" "''200''" "[]"]
    key content idx
  have a: "onAskAI (Some ''sk-test'') (Http True ''200'' [] (Some (textCompletion '' b. ''))) = Answer 1 ''b.''"
    by simp
  from answer_index_of_completion[of "[]" "Some ''sk-test''" partsCompletion "''200''" "[]"]
    key parts
  have b: "isError (onAskAI (Some ''sk-test'') (Http True ''200'' [] (Some partsCompletion)))"
    by blast
  from key content a parts b show ?thesis by blast
qed

text \<open>
  Claim C10 as stated fails on an OK response whose body has an unexpected shape: a
  content that is a list of parts, or a body that is \<open>null\<close>. The worker answers
  both with an error.
\<close>

theorem list_content_is_an_error:
  "truthy (Some ''sk-test'')
   \<and> isError (onAskAI (Some ''sk-test'') (Http True ''200'' [] (Some partsCompletion)))
   \<and> isError (onAskAI (Some ''sk-test'') (Http True ''200'' ''null'' (Some JNull)))"
  by code_simp

end
